theory Spec2Isabelle
  imports Main "HOL-Library.Sublist"
begin

section \<open>Strings\<close>

text \<open>
  Python strings are modelled as \<^typ>\<open>string\<close>; a character is its code point, read by
  \<open>ord\<close>, and the model covers the code points below 256. What Python's \<open>str.isspace\<close>
  and \<open>str.lower\<close> do on these code points is written out.
\<close>

definition ord :: "char \<Rightarrow> nat" where
  "ord c = of_char c"

definition isspace :: "char \<Rightarrow> bool" where
  "isspace c = (ord c \<in> {9, 10, 11, 12, 13, 28, 29, 30, 31, 32, 133, 160})"

definition lower_char :: "char \<Rightarrow> char" where
  "lower_char c =
     (let n = ord c
      in if (65 \<le> n \<and> n \<le> 90) \<or> (192 \<le> n \<and> n \<le> 222 \<and> n \<noteq> 215)
         then char_of (n + 32) else c)"

definition lower :: "string \<Rightarrow> string" where
  "lower s = map lower_char s"

text \<open>\<open>s.strip(chars)\<close>, and \<open>s.strip()\<close> with \<^const>\<open>isspace\<close> for the set.\<close>

definition strip_chars :: "(char \<Rightarrow> bool) \<Rightarrow> string \<Rightarrow> string" where
  "strip_chars P s = rev (dropWhile P (rev (dropWhile P s)))"

definition strip :: "string \<Rightarrow> string" where
  "strip s = strip_chars isspace s"

text \<open>\<open>s.replace(a, b)\<close> for one-character \<open>a\<close> and \<open>b\<close>.\<close>

definition replace_char :: "char \<Rightarrow> char \<Rightarrow> string \<Rightarrow> string" where
  "replace_char a b s = map (\<lambda>c. if c = a then b else c) s"

text \<open>\<open>s.startswith(p)\<close>.\<close>

definition startswith :: "string \<Rightarrow> string \<Rightarrow> bool" where
  "startswith s p = (take (length p) s = p)"

section \<open>Sanitization: \<open>slugify\<close>\<close>

text \<open>
  \<open>re.sub(r"C+", "-", s)\<close> for a character class \<open>C\<close>: every maximal run of
  characters of the class becomes one hyphen.
\<close>

function re_sub_runs :: "(char \<Rightarrow> bool) \<Rightarrow> string \<Rightarrow> string" where
  "re_sub_runs P [] = []"
| "re_sub_runs P (c # cs) =
     (if P c then CHR ''-'' # re_sub_runs P (dropWhile P cs) else c # re_sub_runs P cs)"
  by pat_completeness auto
termination
  by (relation "measure (\<lambda>(P, s). length s)") (auto simp: length_dropWhile_le less_Suc_eq_le)

text \<open>The class \<open>[a-zA-Z0-9\-_.]\<close> of \<open>_slug_re\<close>, which matches its complement.\<close>

definition slug_class :: "char \<Rightarrow> bool" where
  "slug_class c =
     (let n = ord c
      in (97 \<le> n \<and> n \<le> 122) \<or> (65 \<le> n \<and> n \<le> 90) \<or> (48 \<le> n \<and> n \<le> 57)
         \<or> c = CHR ''-'' \<or> c = CHR ''_'' \<or> c = CHR ''.'')"

definition slugify :: "string \<Rightarrow> string" where
  "slugify text =
     (let t1 = replace_char CHR '' '' CHR ''-'' (lower (strip text));
          t2 = re_sub_runs (\<lambda>c. \<not> slug_class c) t1;
          t3 = re_sub_runs (\<lambda>c. c = CHR ''-'') t2;
          t4 = strip_chars (\<lambda>c. c \<in> set ''-._'') t3
      in if t4 = [] then ''index'' else t4)"

text \<open>
  The sanitization as the specification words it: lowercase, spaces to hyphens, any
  character outside the class to a hyphen, collapse repeated hyphens, trim leading and
  trailing \<open>-._\<close>, an empty result becomes \<open>index\<close>.
\<close>

definition sanitize_spec :: "string \<Rightarrow> string" where
  "sanitize_spec text =
     (let lowered = lower text;
          hyphened = replace_char CHR '' '' CHR ''-'' lowered;
          cleaned = map (\<lambda>c. if slug_class c then c else CHR ''-'') hyphened;
          collapsed = re_sub_runs (\<lambda>c. c = CHR ''-'') cleaned;
          trimmed = strip_chars (\<lambda>c. c \<in> set ''-._'') collapsed
      in if trimmed = [] then ''index'' else trimmed)"

text \<open>What the first three steps of the sanitization do to one character.\<close>

definition slug_char :: "char \<Rightarrow> char" where
  "slug_char c =
     (let l = lower_char c; h = (if l = CHR '' '' then CHR ''-'' else l)
      in if slug_class h then h else CHR ''-'')"

section \<open>URLs: \<open>urllib.parse\<close>\<close>

text \<open>
  \<open>urlparse\<close>, \<open>urlunparse\<close> and \<open>urldefrag\<close> belong to Python's standard library.
  They are modelled after \<open>urllib/parse.py\<close> of CPython 3.11.10, for URLs free of the control
  characters that \<open>urlsplit\<close> removes first and of bracketed (IPv6) hosts, which it
  validates.
\<close>

record url_parts =
  url_scheme :: string
  url_netloc :: string
  url_path :: string
  url_params :: string
  url_query :: string
  url_fragment :: string

text \<open>\<open>s.split(d, 1)\<close> as the pair of the text before and after the first \<open>d\<close>.\<close>

definition split1 :: "char \<Rightarrow> string \<Rightarrow> string \<times> string" where
  "split1 d s = (takeWhile (\<lambda>c. c \<noteq> d) s, drop 1 (dropWhile (\<lambda>c. c \<noteq> d) s))"

definition ascii_alpha :: "char \<Rightarrow> bool" where
  "ascii_alpha c = (let n = ord c in (97 \<le> n \<and> n \<le> 122) \<or> (65 \<le> n \<and> n \<le> 90))"

definition scheme_char :: "char \<Rightarrow> bool" where
  "scheme_char c =
     (let n = ord c
      in (97 \<le> n \<and> n \<le> 122) \<or> (65 \<le> n \<and> n \<le> 90) \<or> (48 \<le> n \<and> n \<le> 57)
         \<or> c = CHR ''+'' \<or> c = CHR ''-'' \<or> c = CHR ''.'')"

definition uses_params :: "string list" where
  "uses_params = ['''', ''ftp'', ''hdl'', ''prospero'', ''http'', ''imap'', ''https'', ''shttp'',
     ''rtsp'', ''rtsps'', ''rtspu'', ''sip'', ''sips'', ''mms'', ''sftp'', ''tel'']"

definition uses_netloc :: "string list" where
  "uses_netloc = ['''', ''ftp'', ''http'', ''gopher'', ''nntp'', ''telnet'', ''imap'', ''wais'',
     ''file'', ''mms'', ''https'', ''shttp'', ''snews'', ''prospero'', ''rtsp'', ''rtsps'',
     ''rtspu'', ''rsync'', ''svn'', ''svn+ssh'', ''sftp'', ''nfs'', ''git'', ''git+ssh'', ''ws'', ''wss'']"

text \<open>The scheme: the text before the first colon, when it is a letter followed by scheme characters.\<close>

definition split_scheme :: "string \<Rightarrow> string \<times> string" where
  "split_scheme url =
     (let pre = takeWhile (\<lambda>c. c \<noteq> CHR '':'') url
      in if CHR '':'' \<in> set url \<and> pre \<noteq> [] \<and> ascii_alpha (hd pre) \<and> list_all scheme_char pre
         then (lower pre, drop (length pre + 1) url)
         else ('''', url))"

text \<open>\<open>_splitnetloc(url, 2)\<close>: after \<open>//\<close>, the network location runs to the first of \<open>/?#\<close>.\<close>

definition split_netloc :: "string \<Rightarrow> string \<times> string" where
  "split_netloc url =
     (if take 2 url = ''//''
      then (takeWhile (\<lambda>c. c \<notin> set ''/?#'') (drop 2 url),
            dropWhile (\<lambda>c. c \<notin> set ''/?#'') (drop 2 url))
      else ('''', url))"

definition urlsplit :: "string \<Rightarrow> url_parts" where
  "urlsplit url =
     (let (scheme, r1) = split_scheme url;
          (netloc, r2) = split_netloc r1;
          (r3, frag) = (if CHR ''#'' \<in> set r2 then split1 CHR ''#'' r2 else (r2, ''''));
          (r4, query) = (if CHR ''?'' \<in> set r3 then split1 CHR ''?'' r3 else (r3, ''''))
      in \<lparr>url_scheme = scheme, url_netloc = netloc, url_path = r4, url_params = '''',
          url_query = query, url_fragment = frag\<rparr>)"

text \<open>
  \<open>_splitparams\<close>: the parameters follow the first semicolon of the last path segment.
\<close>

definition splitparams :: "string \<Rightarrow> string \<times> string" where
  "splitparams url =
     (if CHR ''/'' \<in> set url
      then (let last_seg = rev (takeWhile (\<lambda>c. c \<noteq> CHR ''/'') (rev url));
                front = take (length url - length last_seg) url
            in if CHR '';'' \<in> set last_seg
               then (front @ fst (split1 CHR '';'' last_seg), snd (split1 CHR '';'' last_seg))
               else (url, ''''))
      else split1 CHR '';'' url)"

definition urlparse :: "string \<Rightarrow> url_parts" where
  "urlparse url =
     (let p = urlsplit url
      in if url_scheme p \<in> set uses_params \<and> CHR '';'' \<in> set (url_path p)
         then p\<lparr>url_path := fst (splitparams (url_path p)),
                url_params := snd (splitparams (url_path p))\<rparr>
         else p)"

definition urlunsplit :: "url_parts \<Rightarrow> string" where
  "urlunsplit p =
     (let u0 = url_path p;
          u1 = (if url_netloc p \<noteq> [] \<or>
                   (url_scheme p \<noteq> [] \<and> url_scheme p \<in> set uses_netloc) \<or> take 2 u0 = ''//''
                then ''//'' @ url_netloc p @ (if u0 \<noteq> [] \<and> take 1 u0 \<noteq> ''/'' then ''/'' @ u0 else u0)
                else u0);
          u2 = (if url_scheme p \<noteq> [] then url_scheme p @ '':'' @ u1 else u1);
          u3 = (if url_query p \<noteq> [] then u2 @ ''?'' @ url_query p else u2)
      in if url_fragment p \<noteq> [] then u3 @ ''#'' @ url_fragment p else u3)"

definition urlunparse :: "url_parts \<Rightarrow> string" where
  "urlunparse p =
     urlunsplit (if url_params p \<noteq> []
                 then p\<lparr>url_path := url_path p @ '';'' @ url_params p\<rparr> else p)"

definition urldefrag :: "string \<Rightarrow> string \<times> string" where
  "urldefrag url =
     (if CHR ''#'' \<in> set url
      then (let p = urlparse url in (urlunparse (p\<lparr>url_fragment := ''''\<rparr>), url_fragment p))
      else (url, ''''))"

section \<open>HTTP\<close>

text \<open>
  What an \<open>httpx\<close> request gives back: a response, or an exception (a timeout, a failed
  connection, any other error raised inside the \<open>try\<close> block of the caller).
\<close>

record response =
  status_code :: int
  content_type :: "string option"
  body :: string
  final_url :: string

datatype http_error = RequestFailed

type_synonym http_get = "string \<Rightarrow> http_error + response"

section \<open>robots.txt\<close>

text \<open>
  \<open>str.splitlines\<close>: a line ends at \<open>\n\<close>, \<open>\r\<close>, \<open>\r\n\<close>, \<open>\v\<close>, \<open>\f\<close>, \<open>\x1c\<close>,
  \<open>\x1d\<close>, \<open>\x1e\<close> or \<open>\x85\<close>; no empty last line is produced.
\<close>

definition is_linebreak :: "char \<Rightarrow> bool" where
  "is_linebreak c = (ord c \<in> {10, 11, 12, 13, 28, 29, 30, 133})"

fun splitlines_from :: "string \<Rightarrow> string \<Rightarrow> string list" where
  "splitlines_from cur [] = (if cur = [] then [] else [cur])"
| "splitlines_from cur [c] = (if is_linebreak c then [cur] else [cur @ [c]])"
| "splitlines_from cur (c # d # cs) =
     (if ord c = 13 \<and> ord d = 10 then cur # splitlines_from [] cs
      else if is_linebreak c then cur # splitlines_from [] (d # cs)
      else splitlines_from (cur @ [c]) (d # cs))"

definition splitlines :: "string \<Rightarrow> string list" where
  "splitlines s = splitlines_from [] s"

text \<open>
  The loop of \<open>fetch_robots_disallows\<close> over the lines of the body: \<open>ua_star\<close> tells whether
  the last \<open>User-agent\<close> line named \<open>*\<close>, \<open>disallows\<close> collects the non-empty \<open>Disallow\<close>
  paths read while it does.
\<close>

fun robots_lines :: "bool \<Rightarrow> string set \<Rightarrow> string list \<Rightarrow> string set" where
  "robots_lines ua_star disallows [] = disallows"
| "robots_lines ua_star disallows (l # ls) =
     (let line = strip l
      in if line = [] \<or> startswith line ''#'' then robots_lines ua_star disallows ls
         else if startswith (lower line) ''user-agent:''
           then robots_lines (strip (snd (split1 CHR '':'' line)) = ''*'') disallows ls
         else if ua_star \<and> startswith (lower line) ''disallow:''
           then (let path = strip (snd (split1 CHR '':'' line))
                 in robots_lines ua_star (if path \<noteq> [] then insert path disallows else disallows) ls)
         else robots_lines ua_star disallows ls)"

definition robots_url :: "string \<Rightarrow> string" where
  "robots_url base_url =
     (let parsed = urlparse base_url
      in url_scheme parsed @ ''://'' @ url_netloc parsed @ ''/robots.txt'')"

definition fetch_robots_disallows :: "http_get \<Rightarrow> string \<Rightarrow> string set option" where
  "fetch_robots_disallows get base_url =
     (case get (robots_url base_url) of
        Inl e \<Rightarrow> None
      | Inr r \<Rightarrow>
          if status_code r \<noteq> 200 then None
          else Some (robots_lines False {} (splitlines (body r))))"

text \<open>\<open>urlparse(url).path or '/'\<close>.\<close>

definition path_or_root :: "string \<Rightarrow> string" where
  "path_or_root url = (let p = url_path (urlparse url) in if p = [] then ''/'' else p)"

definition allowed_by_robots :: "string \<Rightarrow> string set option \<Rightarrow> bool" where
  "allowed_by_robots url disallows =
     (case disallows of
        None \<Rightarrow> True
      | Some d \<Rightarrow>
          if d = {} then True
          else \<not> (\<exists>p\<in>d. startswith (path_or_root url) p))"

section \<open>Scope\<close>

definition same_domain :: "string \<Rightarrow> string \<Rightarrow> bool" where
  "same_domain a b = (lower (url_netloc (urlparse a)) = lower (url_netloc (urlparse b)))"

definition under_prefix :: "string \<Rightarrow> string option \<Rightarrow> bool" where
  "under_prefix url path_prefix =
     (case path_prefix of
        None \<Rightarrow> True
      | Some p \<Rightarrow> if p = [] then True else startswith (path_or_root url) p)"

section \<open>Output addresses: \<open>path_for_url\<close>\<close>

text \<open>\<open>s.split(d)\<close> for a one-character separator.\<close>

fun split_on :: "char \<Rightarrow> string \<Rightarrow> string list" where
  "split_on d [] = [[]]"
| "split_on d (c # cs) =
     (if c = d then [] # split_on d cs
      else (case split_on d cs of
              [] \<Rightarrow> [[c]]
            | w # ws \<Rightarrow> (c # w) # ws))"

text \<open>\<open>os.path.join\<close> of \<open>posixpath\<close>.\<close>

fun path_join :: "string \<Rightarrow> string list \<Rightarrow> string" where
  "path_join a [] = a"
| "path_join a (b # bs) =
     (if startswith b ''/'' then path_join b bs
      else if a = [] \<or> (a \<noteq> [] \<and> last a = CHR ''/'') then path_join (a @ b) bs
      else path_join (a @ ''/'' @ b) bs)"

text \<open>
  \<open>path_for_url\<close> returns the file path and the stem. The directory it creates with
  \<open>os.makedirs\<close> is \<open>out_dir_for_url\<close>.
\<close>

definition url_segs :: "string \<Rightarrow> string list" where
  "url_segs url_no_frag =
     (let segs = filter (\<lambda>s. s \<noteq> []) (split_on CHR ''/'' (path_or_root url_no_frag))
      in if segs = [] then [''index''] else segs)"

definition stem_for_url :: "string \<Rightarrow> string" where
  "stem_for_url url =
     (let (url_no_frag, frag) = urldefrag url;
          segs = url_segs url_no_frag;
          base = (if last segs = [] then ''index'' else last segs);
          stem = slugify base
      in if frag \<noteq> [] then stem @ ''__'' @ slugify frag else stem)"

definition out_dir_for_url :: "string \<Rightarrow> string \<Rightarrow> string" where
  "out_dir_for_url url base_dir =
     (let (url_no_frag, frag) = urldefrag url;
          segs = url_segs url_no_frag;
          folders = (if length segs > 1 then butlast segs else [''root''])
      in path_join base_dir (map slugify folders))"

definition path_for_url :: "string \<Rightarrow> string \<Rightarrow> string \<times> string" where
  "path_for_url url base_dir =
     (path_join (out_dir_for_url url base_dir) [stem_for_url url @ ''.md''], stem_for_url url)"

section \<open>Parsed HTML\<close>

text \<open>
  \<open>BeautifulSoup(html, 'html.parser')\<close> is an external parser. Its result is modelled as the
  tree it builds: a \<open>Tag\<close> has a name, its attributes (the dictionary, as an association
  list) and its contents; a \<open>NavigableString\<close> is a piece of text; a \<open>Comment\<close> stands for
  the string kinds that \<open>get_text\<close> leaves out. The document itself is the tag named
  \<open>[document]\<close>.
\<close>

datatype node =
    Tag string "(string \<times> string) list" "node list"
  | NavigableString string
  | Comment string

fun is_tag :: "node \<Rightarrow> bool" where
  "is_tag (Tag n a cs) = True"
| "is_tag _ = False"

fun tag_name :: "node \<Rightarrow> string option" where
  "tag_name (Tag n a cs) = Some n"
| "tag_name _ = None"

fun attr :: "node \<Rightarrow> string \<Rightarrow> string option" where
  "attr (Tag n a cs) k = map_of a k"
| "attr _ k = None"

text \<open>\<open>.descendants\<close>: every node below, in document order.\<close>

fun descendants :: "node \<Rightarrow> node list" where
  "descendants (Tag n a cs) = concat (map (\<lambda>c. c # descendants c) cs)"
| "descendants _ = []"

definition find_all :: "(node \<Rightarrow> bool) \<Rightarrow> node \<Rightarrow> node list" where
  "find_all P soup = filter (\<lambda>n. is_tag n \<and> P n) (descendants soup)"

definition find_first :: "(node \<Rightarrow> bool) \<Rightarrow> node \<Rightarrow> node option" where
  "find_first P soup = (case find_all P soup of [] \<Rightarrow> None | n # ns \<Rightarrow> Some n)"

text \<open>\<open>.string\<close>: the single string a tag holds, directly or through single children.\<close>

fun string_of :: "node \<Rightarrow> string option" where
  "string_of (NavigableString s) = Some s"
| "string_of (Comment s) = Some s"
| "string_of (Tag n a [c]) = string_of c"
| "string_of (Tag n a cs) = None"

text \<open>\<open>s.split()\<close> and \<open>sep.join(xs)\<close>.\<close>

fun split_from :: "string \<Rightarrow> string \<Rightarrow> string list" where
  "split_from cur [] = (if cur = [] then [] else [cur])"
| "split_from cur (c # cs) =
     (if isspace c then (if cur = [] then split_from [] cs else cur # split_from [] cs)
      else split_from (cur @ [c]) cs)"

definition split_ws :: "string \<Rightarrow> string list" where
  "split_ws s = split_from [] s"

fun join :: "string \<Rightarrow> string list \<Rightarrow> string" where
  "join sep [] = []"
| "join sep [x] = x"
| "join sep (x # y # ys) = x @ sep @ join sep (y # ys)"

text \<open>
  \<open>tag.get_text(' ', strip=True)\<close>: the text strings below the tag, each stripped, the empty
  ones dropped, joined by one space.
\<close>

fun text_strings :: "node \<Rightarrow> string list" where
  "text_strings (NavigableString s) = [s]"
| "text_strings (Comment s) = []"
| "text_strings (Tag n a cs) = concat (map text_strings cs)"

definition get_text_stripped :: "node \<Rightarrow> string" where
  "get_text_stripped t = join '' '' (filter (\<lambda>s. s \<noteq> []) (map strip (text_strings t)))"

section \<open>Page metadata: \<open>title_and_desc_from_html\<close>\<close>

definition named :: "string \<Rightarrow> node \<Rightarrow> bool" where
  "named n t = (tag_name t = Some n)"

definition title_and_desc_from_html :: "node \<Rightarrow> string \<times> string" where
  "title_and_desc_from_html soup =
     (let title =
            (case find_first (named ''title'') soup of
               None \<Rightarrow> ''Untitled''
             | Some t \<Rightarrow>
                 (case string_of t of
                    None \<Rightarrow> ''Untitled''
                  | Some s \<Rightarrow> if s = [] then ''Untitled'' else strip s));
          desc =
            (case find_first (named ''p'') soup of
               None \<Rightarrow> ''''
             | Some p \<Rightarrow> take 280 (join '' '' (split_ws (get_text_stripped p))))
      in (title, desc))"

section \<open>Links: \<open>extract_links\<close>\<close>

text \<open>\<open>urljoin\<close> is the standard library's and is a parameter here.\<close>

definition extract_links :: "(string \<Rightarrow> string \<Rightarrow> string) \<Rightarrow> string \<Rightarrow> node \<Rightarrow> string list" where
  "extract_links urljoin base_url soup =
     map (urljoin base_url)
       (filter (\<lambda>href. \<not> (startswith href ''javascript:'' \<or> startswith href ''mailto:''))
          (map (\<lambda>a. strip (case attr a ''href'' of None \<Rightarrow> '''' | Some h \<Rightarrow> h))
             (find_all (\<lambda>t. named ''a'' t \<and> attr t ''href'' \<noteq> None) soup)))"

section \<open>Fragment sections: \<open>slice_fragment_section\<close>\<close>

text \<open>
  A node in its place: the node, its following siblings (\<open>.next_siblings\<close>) and the place
  of its parent (\<open>.parent\<close>, \<open>None\<close> above the document).
\<close>

datatype place = Place node "node list" "place option"

fun place_node :: "place \<Rightarrow> node" where
  "place_node (Place n sibs par) = n"

fun next_siblings :: "place \<Rightarrow> node list" where
  "next_siblings (Place n sibs par) = sibs"

fun places :: "place option \<Rightarrow> node list \<Rightarrow> place list" where
  "places par [] = []"
| "places par (c # cs) =
     Place c cs par #
       (case c of
          Tag n a ks \<Rightarrow> places (Some (Place c cs par)) ks
        | _ \<Rightarrow> []) @
       places par cs"

definition document_places :: "node \<Rightarrow> place list" where
  "document_places soup =
     (case soup of
        Tag n a ks \<Rightarrow> places (Some (Place soup [] None)) ks
      | _ \<Rightarrow> [])"

definition find_place :: "(node \<Rightarrow> bool) \<Rightarrow> node \<Rightarrow> place option" where
  "find_place P soup =
     (case filter (\<lambda>p. is_tag (place_node p) \<and> P (place_node p)) (document_places soup) of
        [] \<Rightarrow> None
      | p # ps \<Rightarrow> Some p)"

definition heading_tags :: "string list" where
  "heading_tags = [''h1'', ''h2'', ''h3'', ''h4'', ''h5'', ''h6'']"

definition is_heading :: "node \<Rightarrow> bool" where
  "is_heading n = (case tag_name n of None \<Rightarrow> False | Some nm \<Rightarrow> nm \<in> set heading_tags)"

text \<open>The loop \<open>while start and start.name not in heading_tags: start = start.parent\<close>.\<close>

fun enclosing_heading :: "place \<Rightarrow> place option" where
  "enclosing_heading (Place n sibs par) =
     (if is_heading n then Some (Place n sibs par)
      else (case par of None \<Rightarrow> None | Some p \<Rightarrow> enclosing_heading p))"

text \<open>
  \<open>str.isdigit\<close> and \<open>int\<close> on one character: the superscript digits are digits to
  \<open>isdigit\<close>, and \<open>int\<close> raises \<open>ValueError\<close> on them.
\<close>

definition isdigit :: "char \<Rightarrow> bool" where
  "isdigit c = (let n = ord c in (48 \<le> n \<and> n \<le> 57) \<or> n = 178 \<or> n = 179 \<or> n = 185)"

datatype crawl_error = ValueError | RendererError

definition int_of_digit :: "char \<Rightarrow> crawl_error + int" where
  "int_of_digit c = (let n = ord c in if 48 \<le> n \<and> n \<le> 57 then Inr (int n - 48) else Inl ValueError)"

text \<open>
  \<open>int(start.name[1]) if start.name and start.name.startswith('h') and
  start.name[1:].isdigit() else 6\<close>.
\<close>

definition section_level :: "node \<Rightarrow> crawl_error + int" where
  "section_level start =
     (case tag_name start of
        None \<Rightarrow> Inr 6
      | Some nm \<Rightarrow>
          if startswith nm ''h'' \<and> drop 1 nm \<noteq> [] \<and> list_all isdigit (drop 1 nm)
          then int_of_digit (nm ! 1) else Inr 6)"

text \<open>The rank \<open>int(sib.name[1])\<close> of a heading \<open>h1\<close> to \<open>h6\<close>.\<close>

definition heading_rank :: "node \<Rightarrow> int" where
  "heading_rank n =
     (case tag_name n of
        Some [h, d] \<Rightarrow> int (ord d) - 48
      | _ \<Rightarrow> 0)"

fun collect_siblings :: "int \<Rightarrow> node list \<Rightarrow> node list" where
  "collect_siblings level [] = []"
| "collect_siblings level (sib # sibs) =
     (if is_tag sib \<and> is_heading sib \<and> heading_rank sib \<le> level then []
      else sib # collect_siblings level sibs)"

text \<open>Strings are copied into the container as plain \<open>NavigableString\<close>s.\<close>

fun as_child :: "node \<Rightarrow> node" where
  "as_child (Tag n a cs) = Tag n a cs"
| "as_child (NavigableString s) = NavigableString s"
| "as_child (Comment s) = NavigableString s"

text \<open>\<open>soup.find(id=fragment) or soup.find(attrs={'name': fragment})\<close>.\<close>

definition locate :: "node \<Rightarrow> string \<Rightarrow> place option" where
  "locate soup fragment =
     (case find_place (\<lambda>t. attr t ''id'' = Some fragment) soup of
        Some p \<Rightarrow> Some p
      | None \<Rightarrow> find_place (\<lambda>t. attr t ''name'' = Some fragment) soup)"

text \<open>
  The result is the container \<open>div\<close>; the source returns \<open>str(container)\<close>, its
  serialization by the parser library.
\<close>

definition slice_fragment_section :: "node \<Rightarrow> string \<Rightarrow> crawl_error + node option" where
  "slice_fragment_section soup fragment =
     (if fragment = [] then Inr None
      else
        (case locate soup fragment of
           None \<Rightarrow> Inr None
         | Some node \<Rightarrow>
             (let start = (case enclosing_heading node of Some h \<Rightarrow> h | None \<Rightarrow> node)
              in case section_level (place_node start) of
                   Inl e \<Rightarrow> Inl e
                 | Inr level \<Rightarrow>
                     Inr (Some (Tag ''div'' []
                       (map as_child
                          (place_node start # collect_siblings level (next_siblings start))))))))"

section \<open>Fetching pages: \<open>fetch_html\<close>\<close>

text \<open>\<open>sub in s\<close>.\<close>

fun contains :: "string \<Rightarrow> string \<Rightarrow> bool" where
  "contains [] sub = (sub = [])"
| "contains (c # cs) sub = (startswith (c # cs) sub \<or> contains cs sub)"

definition fetch_html :: "http_get \<Rightarrow> string \<Rightarrow> string option \<times> string option" where
  "fetch_html get url =
     (case get url of
        Inl e \<Rightarrow> (None, None)
      | Inr r \<Rightarrow>
          if status_code r \<noteq> 200 then (None, None)
          else (let ct = lower (case content_type r of None \<Rightarrow> '''' | Some c \<Rightarrow> c)
                in if \<not> contains ct ''text/html'' \<and> \<not> contains ct ''application/xhtml+xml''
                   then (None, None)
                   else (Some (body r), Some (final_url r))))"

section \<open>The crawl: \<open>acrawl\<close>\<close>

record job_config =
  seeds :: "string list"
  cfg_same_domain :: bool
  path_prefix :: "string option"
  max_pages :: int
  output_dir :: string
  make_zip :: bool
  obey_robots :: bool
  include_fragments :: bool

record page_record =
  pr_url :: string
  pr_filepath :: string
  pr_title :: string
  pr_description :: string

text \<open>
  What the renderer's result holds under \<open>markdown\<close>: nothing, a string, or an object
  with the attributes \<open>fit_markdown\<close>, \<open>raw_markdown\<close> and \<open>markdown\<close> (\<open>None\<close> for an
  attribute that is missing).
\<close>

datatype markdown = NoMarkdown | MarkdownStr string | MarkdownObj "string option" "string option" "string option"

fun truthy :: "string option \<Rightarrow> bool" where
  "truthy None = False"
| "truthy (Some s) = (s \<noteq> [])"

fun pull_markdown :: "markdown \<Rightarrow> string option" where
  "pull_markdown NoMarkdown = None"
| "pull_markdown (MarkdownStr s) = Some s"
| "pull_markdown (MarkdownObj fit raw mk) =
     (if truthy fit then fit else if truthy raw then raw else if truthy mk then mk else None)"

text \<open>
  The world outside the program: the HTTP client, the renderer (\<open>crawler.arun\<close>, after
  the retry with the older signature; \<open>Inl\<close> when it raises), \<open>md_fallback\<close> (which
  delegates to \<open>markdownify\<close> or to the parser's \<open>get_text\<close>), the HTML parser and its
  serializer, and \<open>urljoin\<close>. Writing files is taken to succeed.
\<close>

record env =
  http_get :: http_get
  arun :: "string \<Rightarrow> crawl_error + markdown"
  md_fallback :: "string \<Rightarrow> string"
  bs_parse :: "string \<Rightarrow> node"
  bs_str :: "node \<Rightarrow> string"
  urljoin :: "string \<Rightarrow> string \<Rightarrow> string"

text \<open>
  What the loop does, in order, for the properties about the run: an entry leaves the
  frontier, a robots.txt or a page is requested, a page is persisted, a link joins the
  frontier. Entries carry their depth: 0 for a seed, one more than the page for a link found
  on it.
\<close>

datatype event =
    Dequeued string nat
  | RobotsRequested string
  | Fetched string
  | Persisted string
  | Enqueued string nat

text \<open>
  The state of the loop. \<open>q\<close>, \<open>visited\<close>, \<open>records\<close>, \<open>processed\<close> and \<open>robots_cache\<close> are
  the variables of \<open>acrawl\<close>; \<open>files\<close> is what \<open>save_text\<close> has written; \<open>raised\<close> is the
  exception that ended the run, if one did. The depth beside each entry of \<open>q\<close> and the
  \<open>trace\<close> are annotations that no branch reads.
\<close>

record crawl_state =
  q :: "(string \<times> nat) list"
  visited :: "string set"
  records :: "page_record list"
  processed :: int
  robots_cache :: "string \<rightharpoonup> string set option"
  files :: "(string \<times> string) list"
  raised :: "crawl_error option"
  trace :: "event list"

text \<open>The closure \<open>allowed\<close>: the answer, the cache afterwards, and the request made if any.\<close>

definition allowed :: "env \<Rightarrow> job_config \<Rightarrow> (string \<rightharpoonup> string set option) \<Rightarrow> string
    \<Rightarrow> bool \<times> (string \<rightharpoonup> string set option) \<times> event list" where
  "allowed e cfg cache u =
     (if \<not> obey_robots cfg then (True, cache, [])
      else (let host = url_netloc (urlparse u)
            in case cache host of
                 Some d \<Rightarrow> (allowed_by_robots u d, cache, [])
               | None \<Rightarrow>
                   (let d = fetch_robots_disallows (http_get e) u
                    in (allowed_by_robots u d, cache(host \<mapsto> d), [RobotsRequested (robots_url u)]))))"

text \<open>The scope tests of the loop on a dequeued URL and on a discovered link.\<close>

definition in_domain :: "job_config \<Rightarrow> string \<Rightarrow> bool" where
  "in_domain cfg u = (\<not> (cfg_same_domain cfg \<and> \<not> (\<exists>s\<in>set (seeds cfg). same_domain u s)))"

text \<open>The inner loop over the links of a page.\<close>

fun enqueue_links :: "job_config \<Rightarrow> string set \<Rightarrow> nat \<Rightarrow> string list
    \<Rightarrow> (string \<times> nat) list \<times> event list" where
  "enqueue_links cfg vis d [] = ([], [])"
| "enqueue_links cfg vis d (link # links) =
     (let ln = fst (urldefrag link); (qs, evs) = enqueue_links cfg vis d links
      in if ln \<in> vis then (qs, evs)
         else if \<not> in_domain cfg ln then (qs, evs)
         else if \<not> under_prefix ln (path_prefix cfg) then (qs, evs)
         else ((ln, d) # qs, Enqueued ln d # evs))"

text \<open>The markdown of a page: the renderer's, or the fallback's when it gave none.\<close>

definition page_markdown :: "env \<Rightarrow> markdown \<Rightarrow> string \<Rightarrow> string" where
  "page_markdown e result html =
     (if truthy (pull_markdown result)
      then (case pull_markdown result of Some m \<Rightarrow> m | None \<Rightarrow> '''')
      else md_fallback e html)"

text \<open>
  What follows a successful fetch: render, slice the fragment's section, persist, record,
  count, and discover links. \<open>raw\<close> is the entry, \<open>d\<close> its depth.
\<close>

definition process_page :: "env \<Rightarrow> job_config \<Rightarrow> crawl_state \<Rightarrow> string \<Rightarrow> nat \<Rightarrow> string
    \<Rightarrow> string \<Rightarrow> string \<Rightarrow> string \<Rightarrow> crawl_state" where
  "process_page e cfg s raw d url_no_frag frag html final =
     (case arun e url_no_frag of
        Inl err \<Rightarrow> s\<lparr>raised := Some err\<rparr>
      | Inr result \<Rightarrow>
          (case (if include_fragments cfg \<and> frag \<noteq> []
                 then (case slice_fragment_section (bs_parse e html) frag of
                         Inl err \<Rightarrow> Inl err
                       | Inr None \<Rightarrow> Inr (page_markdown e result html)
                       | Inr (Some section) \<Rightarrow>
                           if bs_str e section \<noteq> [] then Inr (md_fallback e (bs_str e section))
                           else Inr (page_markdown e result html))
                 else Inr (page_markdown e result html)) of
             Inl err \<Rightarrow> s\<lparr>raised := Some err\<rparr>
           | Inr md_text \<Rightarrow>
               (let (title, desc) = title_and_desc_from_html (bs_parse e html);
                    out_path = fst (path_for_url raw (output_dir cfg));
                    (new, evs) = enqueue_links cfg (visited s) (Suc d)
                                   (extract_links (urljoin e) final (bs_parse e html))
                in s\<lparr>files := files s @ [(out_path, ''# '' @ title @ ''> Source: '' @ raw @ md_text)],
                     records := records s @ [\<lparr>pr_url = raw, pr_filepath = out_path,
                                               pr_title = title, pr_description = desc\<rparr>],
                     processed := processed s + 1,
                     q := q s @ new,
                     trace := trace s @ Persisted raw # evs\<rparr>)))"

text \<open>One turn of the \<open>while\<close> loop; every \<open>continue\<close> is a branch that returns early.\<close>

definition crawl_step :: "env \<Rightarrow> job_config \<Rightarrow> crawl_state \<Rightarrow> crawl_state" where
  "crawl_step e cfg s =
     (case q s of
        [] \<Rightarrow> s
      | (entry, d) # rest \<Rightarrow>
          (let raw = strip entry;
               s1 = s\<lparr>q := rest, trace := trace s @ [Dequeued entry d]\<rparr>
           in if raw = [] then s1
              else
                (let (url_no_frag, frag) = urldefrag raw
                 in if url_no_frag \<in> visited s1 then s1
                    else
                      (let s2 = s1\<lparr>visited := insert url_no_frag (visited s1)\<rparr>
                       in if \<not> in_domain cfg url_no_frag then s2
                          else if \<not> under_prefix url_no_frag (path_prefix cfg) then s2
                          else
                            (let (ok, cache, evs) = allowed e cfg (robots_cache s2) url_no_frag;
                                 s3 = s2\<lparr>robots_cache := cache, trace := trace s2 @ evs\<rparr>
                             in if \<not> ok then s3
                                else
                                  (let s4 = s3\<lparr>trace := trace s3 @ [Fetched url_no_frag]\<rparr>
                                   in case fetch_html (http_get e) url_no_frag of
                                        (Some html, Some final) \<Rightarrow>
                                          if html = [] then s4
                                          else process_page e cfg s4 raw d url_no_frag frag html final
                                      | _ \<Rightarrow> s4))))))"

definition running :: "job_config \<Rightarrow> crawl_state \<Rightarrow> bool" where
  "running cfg s = (q s \<noteq> [] \<and> processed s < max_pages cfg \<and> raised s = None)"

definition initial_state :: "job_config \<Rightarrow> crawl_state" where
  "initial_state cfg =
     \<lparr>q = map (\<lambda>s. (s, 0)) (seeds cfg), visited = {}, records = [], processed = 0,
      robots_cache = Map.empty, files = [], raised = None, trace = []\<rparr>"

section \<open>Reading the trace\<close>

text \<open>The requests, the entries that left and joined the frontier, and the pages persisted, in order.\<close>

fun fetched_urls :: "event list \<Rightarrow> string list" where
  "fetched_urls [] = []"
| "fetched_urls (Fetched u # evs) = u # fetched_urls evs"
| "fetched_urls (ev # evs) = fetched_urls evs"

fun dequeued :: "event list \<Rightarrow> (string \<times> nat) list" where
  "dequeued [] = []"
| "dequeued (Dequeued u d # evs) = (u, d) # dequeued evs"
| "dequeued (ev # evs) = dequeued evs"

fun enqueued :: "event list \<Rightarrow> (string \<times> nat) list" where
  "enqueued [] = []"
| "enqueued (Enqueued u d # evs) = (u, d) # enqueued evs"
| "enqueued (ev # evs) = enqueued evs"

fun is_request :: "event \<Rightarrow> bool" where
  "is_request (RobotsRequested u) = True"
| "is_request (Fetched u) = True"
| "is_request ev = False"

fun is_persisted :: "event \<Rightarrow> bool" where
  "is_persisted (Persisted u) = True"
| "is_persisted ev = False"

fun is_enqueued :: "event \<Rightarrow> bool" where
  "is_enqueued (Enqueued u d) = True"
| "is_enqueued ev = False"

text \<open>The events after the last page was persisted.\<close>

definition after_last_persist :: "event list \<Rightarrow> event list" where
  "after_last_persist tr = rev (takeWhile (\<lambda>ev. \<not> is_persisted ev) (rev tr))"

section \<open>Notions of the specification\<close>

text \<open>Two host strings match case-insensitively: same length, and equal character by character once lowercased.\<close>

definition ci_match :: "string \<Rightarrow> string \<Rightarrow> bool" where
  "ci_match a b = list_all2 (\<lambda>x y. lower_char x = lower_char y) a b"

text \<open>The robots.txt body of the specification's example.\<close>

definition robots_example :: string where
  "robots_example = ''User-agent: *\<newline>Disallow: /private''"

text \<open>An HTTP client that answers every request with the same response, or with the same failure.\<close>

definition answering :: "response \<Rightarrow> http_get" where
  "answering r = (\<lambda>u. Inr r)"

definition failing :: "http_get" where
  "failing = (\<lambda>u. Inl RequestFailed)"

text \<open>A string without \<open>#\<close>.\<close>

definition hashless :: "string \<Rightarrow> bool" where
  "hashless s = (CHR ''#'' \<notin> set s)"

text \<open>
  The ways the specification names in which a dequeued URL \<open>u\<close> is turned away: the scope
  rejects it (domain, prefix or robots), or its fetch fails (the request raises, the status
  is not 200, the content type is not HTML).
\<close>

definition scope_rejected :: "env \<Rightarrow> job_config \<Rightarrow> crawl_state \<Rightarrow> string \<Rightarrow> bool" where
  "scope_rejected e cfg s u =
     (\<not> in_domain cfg u \<or> \<not> under_prefix u (path_prefix cfg)
      \<or> \<not> fst (allowed e cfg (robots_cache s) u))"

definition html_type :: "string option \<Rightarrow> bool" where
  "html_type ct =
     (let c = lower (case ct of None \<Rightarrow> '''' | Some t \<Rightarrow> t)
      in contains c ''text/html'' \<or> contains c ''application/xhtml+xml'')"

definition fetch_failure :: "http_get \<Rightarrow> string \<Rightarrow> bool" where
  "fetch_failure get u =
     (case get u of
        Inl err \<Rightarrow> True
      | Inr r \<Rightarrow> status_code r \<noteq> 200 \<or> \<not> html_type (content_type r))"

text \<open>
  Breadth-first order, read off a trace: once an entry of depth \<open>k\<close> has left the frontier,
  every entry that joins it later is deeper than \<open>k\<close>.
\<close>

definition deeper_than :: "nat \<Rightarrow> event list \<Rightarrow> bool" where
  "deeper_than k evs = list_all (\<lambda>(v, d). k < d) (enqueued evs)"

fun breadth_first :: "event list \<Rightarrow> bool" where
  "breadth_first [] = True"
| "breadth_first (Dequeued u k # evs) = (deeper_than k evs \<and> breadth_first evs)"
| "breadth_first (ev # evs) = breadth_first evs"


text \<open>
  A paragraph's text: its text strings, one space between them, as \<open>get_text(' ')\<close> reads
  it. Collapsing whitespace: the words of a string, one space between them.
\<close>

definition paragraph_text :: "node \<Rightarrow> string" where
  "paragraph_text p = join '' '' (text_strings p)"

definition collapse_whitespace :: "string \<Rightarrow> string" where
  "collapse_whitespace s = join '' '' (split_ws s)"

section \<open>The parts of a URL, for the proofs about \<open>urllib.parse\<close>\<close>

text \<open>
  Whether a string starts with a scheme, what a
  scheme that parses as itself looks like, the delimiters that end a network location, and
  the last path segment with what stands before it.
\<close>

definition has_scheme :: "string \<Rightarrow> bool" where
  "has_scheme s =
     (let pre = takeWhile (\<lambda>c. c \<noteq> CHR '':'') s
      in CHR '':'' \<in> set s \<and> pre \<noteq> [] \<and> ascii_alpha (hd pre) \<and> list_all scheme_char pre)"

definition good_scheme :: "string \<Rightarrow> bool" where
  "good_scheme sc =
     (sc \<noteq> [] \<and> ascii_alpha (hd sc) \<and> list_all scheme_char sc \<and> lower sc = sc
      \<and> CHR '':'' \<notin> set sc)"

definition delim :: "char \<Rightarrow> bool" where
  "delim c = (c \<in> set ''/?#'')"

definition lastseg :: "string \<Rightarrow> string" where
  "lastseg r = rev (takeWhile (\<lambda>c. c \<noteq> CHR ''/'') (rev r))"

definition frontseg :: "string \<Rightarrow> string" where
  "frontseg r = take (length r - length (lastseg r)) r"

section \<open>An example site\<close>

text \<open>
  The scenario of the specification: \<open>/api\<close> links to \<open>/api/intro\<close> and to \<open>/blog/post\<close>,
  and \<open>/api/intro\<close> links back. Every other request fails. In this small world the body of
  a page is the comma-separated list of its links, which the parser turns into anchors; the
  renderer returns a fixed text.
\<close>

definition html_response :: "string \<Rightarrow> string \<Rightarrow> http_error + response" where
  "html_response u b =
     Inr \<lparr>status_code = 200, content_type = Some ''text/html; charset=utf-8'', body = b,
          final_url = u\<rparr>"

definition example_web :: http_get where
  "example_web u =
     (if u = ''https://docs.example/api''
        then html_response u ''https://docs.example/api/intro,https://docs.example/blog/post''
      else if u = ''https://docs.example/api/intro''
        then html_response u ''https://docs.example/api''
      else Inl RequestFailed)"

definition example_env :: env where
  "example_env =
     \<lparr>http_get = example_web,
      arun = (\<lambda>u. Inr (MarkdownStr ''text'')),
      md_fallback = (\<lambda>h. h),
      bs_parse = (\<lambda>h. Tag ''[document]'' []
                         (map (\<lambda>l. Tag ''a'' [(''href'', l)] []) (split_on CHR '','' h))),
      bs_str = (\<lambda>n. ''<div></div>''),
      urljoin = (\<lambda>b h. h)\<rparr>"

definition example_cfg :: job_config where
  "example_cfg =
     \<lparr>seeds = [''https://docs.example/api''], cfg_same_domain = True,
      path_prefix = Some ''/api'', max_pages = 2, output_dir = ''./export'', make_zip = False,
      obey_robots = True, include_fragments = True\<rparr>"

text \<open>The same crawl stopped after one page, and one whose only seed cannot be fetched.\<close>

definition one_page_cfg :: job_config where
  "one_page_cfg = example_cfg\<lparr>max_pages := 1\<rparr>"

definition missing_cfg :: job_config where
  "missing_cfg = example_cfg\<lparr>seeds := [''https://docs.example/api/missing'']\<rparr>"


section \<open>Example documents\<close>

text \<open>
  A document with nothing in it; one with an empty title and a paragraph; and
  \<open><h0 id="x">a</h0><h1>b</h1>\<close>, where the anchor sits on an element that is no heading
  and whose name is \<open>h\<close> and a digit.
\<close>

definition empty_document :: node where
  "empty_document = Tag ''[document]'' [] []"

definition small_document :: node where
  "small_document =
     Tag ''[document]'' []
       [Tag ''title'' [] [],
        Tag ''p'' [] [NavigableString ''  hello  '', Tag ''b'' [] [NavigableString ''bold''],
                      Comment ''note'', NavigableString ''  wide   world '']]"

definition h0_document :: node where
  "h0_document =
     Tag ''[document]'' []
       [Tag ''h0'' [(''id'', ''x'')] [NavigableString ''a''],
        Tag ''h1'' [] [NavigableString ''b'']]"

section \<open>The loop\<close>

text \<open>
  Facts about one turn that the termination of the loop rests on: a turn that does not
  persist a page takes an entry off the frontier and leaves the count alone; a turn that
  persists one adds one to the count; a turn in which the renderer or the slicer raises
  ends the run.
\<close>

lemma process_page_outcome:
  "(raised (process_page e cfg s raw d u frag html final) \<noteq> None
      \<and> processed (process_page e cfg s raw d u frag html final) = processed s
      \<and> q (process_page e cfg s raw d u frag html final) = q s) \<or>
   (raised (process_page e cfg s raw d u frag html final) = raised s
      \<and> processed (process_page e cfg s raw d u frag html final) = processed s + 1)"
  by (auto simp: process_page_def Let_def split: sum.splits option.splits prod.splits if_splits)

lemma fetched_urls_append: "fetched_urls (xs @ ys) = fetched_urls xs @ fetched_urls ys"
  by (induction xs rule: fetched_urls.induct) simp_all

lemma allowed_events:
  "allowed e cfg cache u = (ok, cache', evs) \<Longrightarrow> list_all is_request evs \<and> fetched_urls evs = []"
  by (auto simp: allowed_def Let_def split: if_splits option.splits)

lemma crawl_step_shape:
  assumes qs: "q s = (entry, d) # rest"
  shows "(\<exists>vis cache evs.
            crawl_step e cfg s =
              s\<lparr>q := rest, visited := vis, robots_cache := cache,
                trace := trace s @ Dequeued entry d # evs\<rparr>
            \<and> visited s \<subseteq> vis \<and> vis \<subseteq> insert (fst (urldefrag (strip entry))) (visited s)
            \<and> list_all is_request evs
            \<and> (fetched_urls evs = [] \<or>
                 (fetched_urls evs = [fst (urldefrag (strip entry))]
                  \<and> fst (urldefrag (strip entry)) \<notin> visited s
                  \<and> vis = insert (fst (urldefrag (strip entry))) (visited s)))) \<or>
         (\<exists>cache evs html final.
            crawl_step e cfg s =
              process_page e cfg
                (s\<lparr>q := rest, visited := insert (fst (urldefrag (strip entry))) (visited s),
                   robots_cache := cache,
                   trace := trace s @ Dequeued entry d # evs @ [Fetched (fst (urldefrag (strip entry)))]\<rparr>)
                (strip entry) d (fst (urldefrag (strip entry))) (snd (urldefrag (strip entry)))
                html final
            \<and> fst (urldefrag (strip entry)) \<notin> visited s
            \<and> list_all is_request evs \<and> fetched_urls evs = []
            \<and> in_domain cfg (fst (urldefrag (strip entry)))
            \<and> under_prefix (fst (urldefrag (strip entry))) (path_prefix cfg)
            \<and> fetch_html (http_get e) (fst (urldefrag (strip entry))) = (Some html, Some final)
            \<and> html \<noteq> [])"
proof -
  obtain u frag where uf: "urldefrag (strip entry) = (u, frag)" by (cases "urldefrag (strip entry)")
  obtain ok cache evs where al: "allowed e cfg (robots_cache s) u = (ok, cache, evs)"
    by (cases "allowed e cfg (robots_cache s) u")
  note ev = allowed_events[OF al]
  have skip: "\<And>vis cache evs. visited s \<subseteq> vis \<Longrightarrow> vis \<subseteq> insert u (visited s) \<Longrightarrow> list_all is_request evs \<Longrightarrow>
     fetched_urls evs = [] \<or> (fetched_urls evs = [u] \<and> u \<notin> visited s \<and> vis = insert u (visited s)) \<Longrightarrow>
     crawl_step e cfg s = s\<lparr>q := rest, visited := vis, robots_cache := cache,
                trace := trace s @ Dequeued entry d # evs\<rparr> \<Longrightarrow> ?thesis"
    unfolding uf fst_conv snd_conv by blast
  show ?thesis
  proof (cases "strip entry = [] \<or> u \<in> visited s")
    case True
    then have "crawl_step e cfg s = s\<lparr>q := rest, visited := visited s, robots_cache := robots_cache s,
                trace := trace s @ Dequeued entry d # []\<rparr>"
      by (auto simp: crawl_step_def qs uf Let_def)
    then show ?thesis by (rule skip[rotated 4]) auto
  next
    case fresh: False
    show ?thesis
    proof (cases "in_domain cfg u \<and> under_prefix u (path_prefix cfg)")
      case False
      then have "crawl_step e cfg s = s\<lparr>q := rest, visited := insert u (visited s), robots_cache := robots_cache s,
                trace := trace s @ Dequeued entry d # []\<rparr>"
        using fresh by (auto simp: crawl_step_def qs uf Let_def)
      then show ?thesis by (rule skip[rotated 4]) auto
    next
      case scope: True
      show ?thesis
      proof (cases "ok")
        case False
        then have "crawl_step e cfg s = s\<lparr>q := rest, visited := insert u (visited s), robots_cache := cache,
                trace := trace s @ Dequeued entry d # evs\<rparr>"
          using fresh scope by (auto simp: crawl_step_def qs uf al Let_def)
        then show ?thesis by (rule skip[rotated 4]) (use ev in auto)
      next
        case True
        show ?thesis
        proof (cases "\<exists>html final. fetch_html (http_get e) u = (Some html, Some final) \<and> html \<noteq> []")
          case False
          then have "crawl_step e cfg s = s\<lparr>q := rest, visited := insert u (visited s), robots_cache := cache,
                trace := trace s @ Dequeued entry d # (evs @ [Fetched u])\<rparr>"
            using fresh scope True
            by (auto simp: crawl_step_def qs uf al Let_def split: option.splits prod.splits)
          then show ?thesis by (rule skip[rotated 4]) (use ev fresh fetched_urls_append in auto)
        next
          case fetched: True
          then obtain html final where f: "fetch_html (http_get e) u = (Some html, Some final)" "html \<noteq> []"
            by blast
          have "crawl_step e cfg s =
              process_page e cfg
                (s\<lparr>q := rest, visited := insert u (visited s), robots_cache := cache,
                   trace := trace s @ Dequeued entry d # evs @ [Fetched u]\<rparr>)
                (strip entry) d u frag html final"
            using fresh scope True f by (auto simp: crawl_step_def qs uf al Let_def)
          then show ?thesis using fresh scope ev f unfolding uf fst_conv snd_conv by blast
        qed
      qed
    qed
  qed
qed

lemma crawl_step_outcome:
  assumes "running cfg s"
  shows "(raised (crawl_step e cfg s) \<noteq> None \<and> processed (crawl_step e cfg s) = processed s) \<or>
         (raised (crawl_step e cfg s) = None \<and> processed (crawl_step e cfg s) = processed s + 1) \<or>
         (raised (crawl_step e cfg s) = None \<and> processed (crawl_step e cfg s) = processed s
            \<and> length (q (crawl_step e cfg s)) < length (q s))"
proof -
  from assms obtain entry d rest where qs: "q s = (entry, d) # rest" and r: "raised s = None"
    by (cases "q s") (auto simp: running_def)
  from crawl_step_shape[OF qs, of e cfg]
  consider (skip) vis cache evs where
      "crawl_step e cfg s = s\<lparr>q := rest, visited := vis, robots_cache := cache,
                trace := trace s @ Dequeued entry d # evs\<rparr>"
    | (page) cache evs html final where
      "crawl_step e cfg s =
              process_page e cfg
                (s\<lparr>q := rest, visited := insert (fst (urldefrag (strip entry))) (visited s),
                   robots_cache := cache,
                   trace := trace s @ Dequeued entry d # evs @ [Fetched (fst (urldefrag (strip entry)))]\<rparr>)
                (strip entry) d (fst (urldefrag (strip entry))) (snd (urldefrag (strip entry)))
                html final"
    by blast
  then show ?thesis
  proof cases
    case skip
    then show ?thesis using r qs by simp
  next
    case page
    show ?thesis unfolding page
      using process_page_outcome[of e cfg "s\<lparr>q := rest, visited := insert (fst (urldefrag (strip entry))) (visited s),
                   robots_cache := cache,
                   trace := trace s @ Dequeued entry d # evs @ [Fetched (fst (urldefrag (strip entry)))]\<rparr>"
                "strip entry" d "fst (urldefrag (strip entry))" "snd (urldefrag (strip entry))" html final] r
      by auto
  qed
qed

function crawl_loop :: "env \<Rightarrow> job_config \<Rightarrow> crawl_state \<Rightarrow> crawl_state" where
  "crawl_loop e cfg s = (if running cfg s then crawl_loop e cfg (crawl_step e cfg s) else s)"
  by pat_completeness auto
termination
proof (relation "measures [\<lambda>(e, cfg, s). if raised s = None then 1 else 0,
                           \<lambda>(e, cfg, s). nat (max_pages cfg - processed s),
                           \<lambda>(e, cfg, s). length (q s)]")
  fix e cfg s
  assume r: "running cfg s"
  then have "raised s = None" "processed s < max_pages cfg" by (simp_all add: running_def)
  with crawl_step_outcome[OF r, of e]
  show "((e, cfg, crawl_step e cfg s), (e, cfg, s))
        \<in> measures [\<lambda>(e, cfg, s). if raised s = None then 1 else 0,
                     \<lambda>(e, cfg, s). nat (max_pages cfg - processed s),
                     \<lambda>(e, cfg, s). length (q s)]"
    by auto
qed simp

declare crawl_loop.simps [simp del]

text \<open>
  \<open>acrawl\<close> returns the records when the loop ends; \<open>build_indexes\<close> and \<open>zip_dir\<close>, which
  run in between, only write files. Without Crawl4AI the source exits before the loop; the
  model is of a run in which it is installed.
\<close>

definition acrawl :: "env \<Rightarrow> job_config \<Rightarrow> crawl_error + page_record list" where
  "acrawl e cfg =
     (let s = crawl_loop e cfg (initial_state cfg)
      in case raised s of Some err \<Rightarrow> Inl err | None \<Rightarrow> Inr (records s))"

section \<open>Sanitization refines its specification\<close>

lemma collapse_no_leading:
  "xs = [] \<or> hd xs \<noteq> CHR ''-'' \<Longrightarrow>
   dropWhile (\<lambda>c. c = CHR ''-'') (re_sub_runs (\<lambda>c. c = CHR ''-'') xs) =
   re_sub_runs (\<lambda>c. c = CHR ''-'') xs"
  by (cases xs) simp_all

lemma dropWhile_no_leading:
  "dropWhile P xs = [] \<or> \<not> P (hd (dropWhile P xs))"
  using hd_dropWhile[of P xs] by blast

lemma collapse_dropWhile:
  "re_sub_runs (\<lambda>c. c = CHR ''-'') (dropWhile (\<lambda>c. c = CHR ''-'') xs) =
   dropWhile (\<lambda>c. c = CHR ''-'') (re_sub_runs (\<lambda>c. c = CHR ''-'') xs)"
proof (cases xs)
  case Nil
  then show ?thesis by simp
next
  case (Cons a ys)
  show ?thesis
  proof (cases "a = CHR ''-''")
    case True
    have "dropWhile (\<lambda>c. c = CHR ''-'')
            (re_sub_runs (\<lambda>c. c = CHR ''-'') (dropWhile (\<lambda>c. c = CHR ''-'') ys))
          = re_sub_runs (\<lambda>c. c = CHR ''-'') (dropWhile (\<lambda>c. c = CHR ''-'') ys)"
      using dropWhile_no_leading[of "\<lambda>c. c = CHR ''-''" ys]
      by (intro collapse_no_leading) simp
    with True Cons show ?thesis by simp
  next
    case False
    with Cons show ?thesis by simp
  qed
qed

lemma dropWhile_map_dropWhile:
  assumes "\<And>c. Q c \<Longrightarrow> f c = CHR ''-''"
  shows "dropWhile (\<lambda>c. c = CHR ''-'') (map f (dropWhile Q cs)) =
         dropWhile (\<lambda>c. c = CHR ''-'') (map f cs)"
proof (induction cs)
  case Nil
  then show ?case by simp
next
  case (Cons a cs)
  then show ?case using assms[of a] by (cases "Q a") simp_all
qed

lemma collapse_sub_runs:
  assumes q: "\<And>c. Q c \<Longrightarrow> f c = CHR ''-''" and nq: "\<And>c. \<not> Q c \<Longrightarrow> f c = c"
  shows "re_sub_runs (\<lambda>c. c = CHR ''-'') (re_sub_runs Q t) =
         re_sub_runs (\<lambda>c. c = CHR ''-'') (map f t)"
proof (induction t rule: length_induct)
  case (1 t)
  show ?case
  proof (cases t)
    case Nil
    then show ?thesis by simp
  next
    case (Cons c cs)
    show ?thesis
    proof (cases "Q c")
      case True
      have len: "length (dropWhile Q cs) < length t"
        using Cons length_dropWhile_le[of Q cs] by simp
      have ih: "re_sub_runs (\<lambda>c. c = CHR ''-'') (re_sub_runs Q (dropWhile Q cs)) =
                re_sub_runs (\<lambda>c. c = CHR ''-'') (map f (dropWhile Q cs))"
        using 1 len by blast
      have "re_sub_runs (\<lambda>c. c = CHR ''-'') (dropWhile (\<lambda>c. c = CHR ''-'') (re_sub_runs Q (dropWhile Q cs)))
          = re_sub_runs (\<lambda>c. c = CHR ''-'') (dropWhile (\<lambda>c. c = CHR ''-'') (map f (dropWhile Q cs)))"
        by (simp only: collapse_dropWhile ih)
      also have "\<dots> = re_sub_runs (\<lambda>c. c = CHR ''-'') (dropWhile (\<lambda>c. c = CHR ''-'') (map f cs))"
        by (simp only: dropWhile_map_dropWhile[of Q f, OF q])
      finally show ?thesis using True Cons q[OF True] by simp
    next
      case False
      have ih: "re_sub_runs (\<lambda>c. c = CHR ''-'') (re_sub_runs Q cs) =
                re_sub_runs (\<lambda>c. c = CHR ''-'') (map f cs)"
        using 1 Cons by simp
      have ih': "re_sub_runs (\<lambda>c. c = CHR ''-'') (dropWhile (\<lambda>c. c = CHR ''-'') (re_sub_runs Q cs))
          = re_sub_runs (\<lambda>c. c = CHR ''-'') (dropWhile (\<lambda>c. c = CHR ''-'') (map f cs))"
        by (simp only: collapse_dropWhile ih)
      show ?thesis using False Cons nq[OF False] ih ih' by simp
    qed
  qed
qed


lemma strip_chars_dropWhile:
  assumes "\<And>c. H c \<Longrightarrow> T c"
  shows "strip_chars T (dropWhile H zs) = strip_chars T zs"
proof -
  have "dropWhile T (dropWhile H zs) = dropWhile T zs"
    using assms by (induction zs) auto
  then show ?thesis by (simp add: strip_chars_def)
qed

lemma strip_chars_snoc:
  assumes "T t"
  shows "strip_chars T (zs @ [t]) = strip_chars T zs"
proof (cases "\<forall>x\<in>set zs. T x")
  case True
  then have a: "dropWhile T zs = []" by simp
  from True assms have b: "dropWhile T (zs @ [t]) = []" by simp
  show ?thesis unfolding strip_chars_def a b by simp
next
  case False
  then have "dropWhile T (zs @ [t]) = dropWhile T zs @ [t]"
    by (metis dropWhile_append1 dropWhile_append3 dropWhile_eq_Nil_conv)
  then show ?thesis using assms by (simp add: strip_chars_def)
qed

lemma last_dropWhile:
  "dropWhile P xs \<noteq> [] \<Longrightarrow> last (dropWhile P xs) = last xs"
  by (induction xs) (auto split: if_splits)

lemma collapse_snoc:
  "re_sub_runs (\<lambda>c. c = CHR ''-'') (ys @ [CHR ''-'']) =
     (if ys \<noteq> [] \<and> last ys = CHR ''-'' then re_sub_runs (\<lambda>c. c = CHR ''-'') ys
      else re_sub_runs (\<lambda>c. c = CHR ''-'') ys @ [CHR ''-''])"
proof (induction ys rule: length_induct)
  case (1 ys)
  show ?case
  proof (cases ys)
    case Nil
    then show ?thesis by simp
  next
    case (Cons c cs)
    show ?thesis
    proof (cases "c = CHR ''-''")
      case False
      have "re_sub_runs (\<lambda>c. c = CHR ''-'') (cs @ [CHR ''-'']) =
        (if cs \<noteq> [] \<and> last cs = CHR ''-'' then re_sub_runs (\<lambda>c. c = CHR ''-'') cs
         else re_sub_runs (\<lambda>c. c = CHR ''-'') cs @ [CHR ''-''])"
        using 1 Cons by simp
      with False Cons show ?thesis by simp
    next
      case True
      show ?thesis
      proof (cases "\<forall>x\<in>set cs. x = CHR ''-''")
        case all: True
        then have a: "dropWhile (\<lambda>c. c = CHR ''-'') cs = []" by simp
        from all have b: "dropWhile (\<lambda>c. c = CHR ''-'') (cs @ [CHR ''-'']) = []" by simp
        from all have l: "cs \<noteq> [] \<Longrightarrow> last cs = CHR ''-''" by simp
        show ?thesis using True Cons l by (simp add: a b)
      next
        case nall: False
        define D where "D = dropWhile (\<lambda>c. c = CHR ''-'') cs"
        from nall have dne: "D \<noteq> []" by (simp add: D_def)
        from nall have cne: "cs \<noteq> []" by auto
        have dl: "last D = last cs" using dne last_dropWhile unfolding D_def by blast
        from nall have b: "dropWhile (\<lambda>c. c = CHR ''-'') (cs @ [CHR ''-'']) = D @ [CHR ''-'']"
          unfolding D_def by (metis (mono_tags, lifting) dropWhile_append1 dropWhile_append3 dropWhile_eq_Nil_conv)
        have "length D < length ys" using Cons length_dropWhile_le[of "\<lambda>c. c = CHR ''-''" cs]
          by (simp add: D_def)
        then have ih: "re_sub_runs (\<lambda>c. c = CHR ''-'') (D @ [CHR ''-'']) =
          (if D \<noteq> [] \<and> last D = CHR ''-'' then re_sub_runs (\<lambda>c. c = CHR ''-'') D
           else re_sub_runs (\<lambda>c. c = CHR ''-'') D @ [CHR ''-''])"
          using 1 by blast
        have l: "re_sub_runs (\<lambda>c. c = CHR ''-'') (ys @ [CHR ''-'']) =
                 CHR ''-'' # re_sub_runs (\<lambda>c. c = CHR ''-'') (D @ [CHR ''-''])"
          using True Cons b by simp
        have r: "re_sub_runs (\<lambda>c. c = CHR ''-'') ys =
                 CHR ''-'' # re_sub_runs (\<lambda>c. c = CHR ''-'') D"
          using True Cons by (simp add: D_def)
        have ly: "last ys = last cs" using Cons cne by simp
        show ?thesis unfolding l r ih using dne dl ly Cons by simp
      qed
    qed
  qed
qed

lemma strip_collapse_trailing:
  assumes "\<And>c. c = CHR ''-'' \<Longrightarrow> T c"
  shows "list_all (\<lambda>c. c = CHR ''-'') hs \<Longrightarrow>
         strip_chars T (re_sub_runs (\<lambda>c. c = CHR ''-'') (ys @ hs)) =
         strip_chars T (re_sub_runs (\<lambda>c. c = CHR ''-'') ys)"
proof (induction hs arbitrary: ys)
  case Nil
  then show ?case by simp
next
  case (Cons h hs)
  then have h: "h = CHR ''-''" and rest: "list_all (\<lambda>c. c = CHR ''-'') hs" by simp_all
  have "strip_chars T (re_sub_runs (\<lambda>c. c = CHR ''-'') ((ys @ [h]) @ hs)) =
        strip_chars T (re_sub_runs (\<lambda>c. c = CHR ''-'') (ys @ [h]))"
    using Cons.IH[OF rest] .
  also have "\<dots> = strip_chars T (re_sub_runs (\<lambda>c. c = CHR ''-'') ys)"
    unfolding h collapse_snoc using strip_chars_snoc[of T "CHR ''-''"] assms by simp
  finally show ?case by simp
qed

lemma strip_collapse_leading:
  assumes "\<And>c. c = CHR ''-'' \<Longrightarrow> T c"
  shows "list_all (\<lambda>c. c = CHR ''-'') hs \<Longrightarrow>
         strip_chars T (re_sub_runs (\<lambda>c. c = CHR ''-'') (hs @ ys)) =
         strip_chars T (re_sub_runs (\<lambda>c. c = CHR ''-'') ys)"
proof -
  assume hs: "list_all (\<lambda>c. c = CHR ''-'') hs"
  then have d: "dropWhile (\<lambda>c. c = CHR ''-'') (hs @ ys) = dropWhile (\<lambda>c. c = CHR ''-'') ys"
    by (induction hs) auto
  have "strip_chars T (re_sub_runs (\<lambda>c. c = CHR ''-'') (hs @ ys)) =
        strip_chars T (dropWhile (\<lambda>c. c = CHR ''-'') (re_sub_runs (\<lambda>c. c = CHR ''-'') (hs @ ys)))"
    using strip_chars_dropWhile[of "\<lambda>c. c = CHR ''-''" T] assms by simp
  also have "\<dots> = strip_chars T (dropWhile (\<lambda>c. c = CHR ''-'') (re_sub_runs (\<lambda>c. c = CHR ''-'') ys))"
    by (simp only: collapse_dropWhile[symmetric] d)
  also have "\<dots> = strip_chars T (re_sub_runs (\<lambda>c. c = CHR ''-'') ys)"
    using strip_chars_dropWhile[of "\<lambda>c. c = CHR ''-''" T] assms by simp
  finally show ?thesis .
qed

lemma strip_chars_decompose:
  "s = takeWhile W s @ strip_chars W s @ rev (takeWhile W (rev (dropWhile W s)))"
proof -
  have "rev (dropWhile W s) = takeWhile W (rev (dropWhile W s)) @ dropWhile W (rev (dropWhile W s))"
    by simp
  then have "dropWhile W s = rev (dropWhile W (rev (dropWhile W s))) @ rev (takeWhile W (rev (dropWhile W s)))"
    by (metis rev_append rev_rev_ident)
  then show ?thesis unfolding strip_chars_def by (metis takeWhile_dropWhile_id)
qed


lemma isspace_lower: "isspace c \<Longrightarrow> lower_char c = c"
  by (auto simp: isspace_def lower_char_def)

lemma isspace_not_slug_class: "isspace c \<Longrightarrow> c \<noteq> CHR '' '' \<Longrightarrow> \<not> slug_class c"
  by (auto simp: isspace_def slug_class_def ord_def)

lemma slug_class_hyphen: "slug_class CHR ''-''"
  by (simp add: slug_class_def)

lemma slug_char_space: "isspace c \<Longrightarrow> slug_char c = CHR ''-''"
  using isspace_lower[of c] isspace_not_slug_class[of c] slug_class_hyphen
  by (cases "c = CHR '' ''") (simp_all add: slug_char_def)

lemma map_slug_char:
  "map (\<lambda>c. if slug_class c then c else CHR ''-'') (replace_char CHR '' '' CHR ''-'' (lower t)) =
   map slug_char t"
  by (induction t) (simp_all add: lower_def replace_char_def slug_char_def Let_def)

lemma sanitize_spec_alt:
  "sanitize_spec text =
     (let t = strip_chars (\<lambda>c. c \<in> set ''-._'')
                (re_sub_runs (\<lambda>c. c = CHR ''-'') (map slug_char text))
      in if t = [] then ''index'' else t)"
  unfolding sanitize_spec_def Let_def map_slug_char ..

lemma slugify_alt:
  "slugify text =
     (let t = strip_chars (\<lambda>c. c \<in> set ''-._'')
                (re_sub_runs (\<lambda>c. c = CHR ''-'') (map slug_char (strip text)))
      in if t = [] then ''index'' else t)"
proof -
  have "re_sub_runs (\<lambda>c. c = CHR ''-'') (re_sub_runs (\<lambda>c. \<not> slug_class c) t) =
        re_sub_runs (\<lambda>c. c = CHR ''-'') (map (\<lambda>c. if slug_class c then c else CHR ''-'') t)" for t
    by (rule collapse_sub_runs) simp_all
  then show ?thesis
    unfolding slugify_def Let_def by (simp only: map_slug_char)
qed

lemma strip_space_irrelevant:
  "strip_chars (\<lambda>c. c \<in> set ''-._'')
     (re_sub_runs (\<lambda>c. c = CHR ''-'') (map slug_char (strip text))) =
   strip_chars (\<lambda>c. c \<in> set ''-._'')
     (re_sub_runs (\<lambda>c. c = CHR ''-'') (map slug_char text))"
proof -
  define pre where "pre = takeWhile isspace text"
  define suf where "suf = rev (takeWhile isspace (rev (dropWhile isspace text)))"
  define core where "core = strip text"
  have dec: "text = pre @ core @ suf"
    unfolding pre_def suf_def core_def strip_def by (rule strip_chars_decompose)
  have "\<forall>c\<in>set pre. isspace c" unfolding pre_def by (auto dest: set_takeWhileD)
  then have hp: "list_all (\<lambda>c. c = CHR ''-'') (map slug_char pre)"
    by (simp add: list_all_iff slug_char_space)
  have "\<forall>c\<in>set suf. isspace c" unfolding suf_def by (auto dest: set_takeWhileD)
  then have hs: "list_all (\<lambda>c. c = CHR ''-'') (map slug_char suf)"
    by (simp add: list_all_iff slug_char_space)
  have T: "\<And>c. c = CHR ''-'' \<Longrightarrow> c \<in> set ''-._''" by simp
  have "strip_chars (\<lambda>c. c \<in> set ''-._'')
          (re_sub_runs (\<lambda>c. c = CHR ''-'') (map slug_char text)) =
        strip_chars (\<lambda>c. c \<in> set ''-._'')
          (re_sub_runs (\<lambda>c. c = CHR ''-'')
             (map slug_char pre @ (map slug_char core @ map slug_char suf)))"
    by (subst dec) simp
  also have "\<dots> = strip_chars (\<lambda>c. c \<in> set ''-._'')
          (re_sub_runs (\<lambda>c. c = CHR ''-'') (map slug_char core @ map slug_char suf))"
    using strip_collapse_leading[of "\<lambda>c. c \<in> set ''-._''", OF T hp] .
  also have "\<dots> = strip_chars (\<lambda>c. c \<in> set ''-._'')
          (re_sub_runs (\<lambda>c. c = CHR ''-'') (map slug_char core))"
    using strip_collapse_trailing[of "\<lambda>c. c \<in> set ''-._''", OF T hs] .
  finally show ?thesis unfolding core_def by simp
qed

text \<open>
  Claim C8. For every input string, \<open>slugify\<close> (the code: strip, lowercase, spaces to
  hyphens, every run of characters outside \<open>[a-zA-Z0-9\-_.]\<close> to one hyphen, runs of
  hyphens to one, trim \<open>-._\<close>, empty to \<open>index\<close>) returns what the specified
  sanitization returns (lowercase, spaces to hyphens, every character outside the class to a
  hyphen, collapse repeated hyphens, trim \<open>-._\<close>, empty to \<open>index\<close>).
\<close>

theorem slugify_refines_spec: "slugify text = sanitize_spec text"
  unfolding slugify_alt sanitize_spec_alt strip_space_irrelevant ..

section \<open>The same-domain check\<close>

lemma ci_match_lower: "ci_match a b = (lower a = lower b)"
proof -
  have "(map lower_char a = map lower_char b) = list_all2 (=) (map lower_char a) (map lower_char b)"
    by (simp add: list_all2_eq)
  then show ?thesis
    by (simp add: ci_match_def lower_def list_all2_map1 list_all2_map2)
qed

text \<open>
  Claim C9. With the same-domain flag on, a URL passes the same-domain check of the loop
  exactly when its host (the network location, which the source calls \<open>host\<close>) matches
  the host of at least one seed case-insensitively; with the flag off the check always
  passes.
\<close>

theorem same_domain_check:
  "in_domain cfg u =
     (if cfg_same_domain cfg
      then (\<exists>s\<in>set (seeds cfg). ci_match (url_netloc (urlparse u)) (url_netloc (urlparse s)))
      else True)"
  by (simp add: in_domain_def same_domain_def ci_match_lower)

section \<open>The robots check\<close>

lemma robots_example_disallows:
  "robots_lines False {} (splitlines robots_example) = {''/private''}"
  unfolding robots_example_def by code_simp

lemma fetch_robots_example:
  "fetch_robots_disallows (answering (r\<lparr>status_code := 200, body := robots_example\<rparr>)) u =
     Some {''/private''}"
  by (simp add: fetch_robots_disallows_def answering_def robots_example_disallows)

lemma fetch_robots_fails_open:
  "fetch_robots_disallows failing u = None"
  "status_code r = 200 \<or> fetch_robots_disallows (answering r) u = None"
  by (simp_all add: fetch_robots_disallows_def answering_def failing_def)

lemma path_or_root_examples:
  "path_or_root ''https://h/private/x'' = ''/private/x''"
  "path_or_root ''https://h/public'' = ''/public''"
  by code_simp+

lemma allowed_robots_example:
  "fst (allowed (e\<lparr>http_get := answering (r\<lparr>status_code := 200, body := robots_example\<rparr>)\<rparr>)
          (cfg\<lparr>obey_robots := True\<rparr>) Map.empty u)
     = (\<not> startswith (path_or_root u) ''/private'')"
  by (simp add: allowed_def Let_def fetch_robots_example allowed_by_robots_def)

lemma allowed_request_failed:
  "fst (allowed (e\<lparr>http_get := failing\<rparr>) (cfg\<lparr>obey_robots := True\<rparr>) Map.empty u) = True"
  by (simp add: allowed_def Let_def fetch_robots_fails_open allowed_by_robots_def)

lemma allowed_not_200:
  "status_code r = 200 \<or>
   fst (allowed (e\<lparr>http_get := answering r\<rparr>) (cfg\<lparr>obey_robots := True\<rparr>) Map.empty u) = True"
  using fetch_robots_fails_open(2)[of r u]
  by (auto simp: allowed_def Let_def allowed_by_robots_def)

text \<open>
  Claim C4. When robots.txt is served with status 200 and the body
  \<open>User-agent: *\<close>, \<open>Disallow: /private\<close>, the robots check on a first reference to the host
  rejects exactly the URLs whose path starts with \<open>/private\<close>: it rejects
  \<open>https://h/private/x\<close> and accepts \<open>https://h/public\<close>. When the request raises (a
  network failure or any other exception), or is answered with a status other than 200
  (404, say), there is no restriction and every URL is allowed.
\<close>

theorem robots_check:
  "fst (allowed (e\<lparr>http_get := answering (r\<lparr>status_code := 200, body := robots_example\<rparr>)\<rparr>)
          (cfg\<lparr>obey_robots := True\<rparr>) Map.empty u)
     = (\<not> startswith (path_or_root u) ''/private'')
   \<and> fst (allowed (e\<lparr>http_get := answering (r\<lparr>status_code := 200, body := robots_example\<rparr>)\<rparr>)
          (cfg\<lparr>obey_robots := True\<rparr>) Map.empty ''https://h/private/x'') = False
   \<and> fst (allowed (e\<lparr>http_get := answering (r\<lparr>status_code := 200, body := robots_example\<rparr>)\<rparr>)
          (cfg\<lparr>obey_robots := True\<rparr>) Map.empty ''https://h/public'') = True
   \<and> fst (allowed (e\<lparr>http_get := failing\<rparr>) (cfg\<lparr>obey_robots := True\<rparr>) Map.empty u) = True
   \<and> fst (allowed (e\<lparr>http_get := answering (r\<lparr>status_code := 404\<rparr>)\<rparr>)
          (cfg\<lparr>obey_robots := True\<rparr>) Map.empty u) = True
   \<and> (status_code r = 200 \<or>
      fst (allowed (e\<lparr>http_get := answering r\<rparr>) (cfg\<lparr>obey_robots := True\<rparr>) Map.empty u) = True)"
proof (intro conjI)
  show "fst (allowed (e\<lparr>http_get := answering (r\<lparr>status_code := 200, body := robots_example\<rparr>)\<rparr>)
          (cfg\<lparr>obey_robots := True\<rparr>) Map.empty u)
     = (\<not> startswith (path_or_root u) ''/private'')"
    by (rule allowed_robots_example)
  show "fst (allowed (e\<lparr>http_get := answering (r\<lparr>status_code := 200, body := robots_example\<rparr>)\<rparr>)
          (cfg\<lparr>obey_robots := True\<rparr>) Map.empty ''https://h/private/x'') = False"
    by (simp add: allowed_robots_example path_or_root_examples startswith_def)
  show "fst (allowed (e\<lparr>http_get := answering (r\<lparr>status_code := 200, body := robots_example\<rparr>)\<rparr>)
          (cfg\<lparr>obey_robots := True\<rparr>) Map.empty ''https://h/public'') = True"
    by (simp add: allowed_robots_example path_or_root_examples startswith_def)
  show "fst (allowed (e\<lparr>http_get := failing\<rparr>) (cfg\<lparr>obey_robots := True\<rparr>) Map.empty u) = True"
    by (rule allowed_request_failed)
  show "fst (allowed (e\<lparr>http_get := answering (r\<lparr>status_code := 404\<rparr>)\<rparr>)
          (cfg\<lparr>obey_robots := True\<rparr>) Map.empty u) = True"
    using allowed_not_200[of "r\<lparr>status_code := 404\<rparr>" e cfg u] by simp
  show "status_code r = 200 \<or>
      fst (allowed (e\<lparr>http_get := answering r\<rparr>) (cfg\<lparr>obey_robots := True\<rparr>) Map.empty u) = True"
    by (rule allowed_not_200)
qed

section \<open>Output addresses and fragments\<close>

lemma ord_less_256: "ord c < 256"
  unfolding ord_def by (rule nat_of_char_less_256)

lemma lower_char_hash: "lower_char c = CHR ''#'' \<Longrightarrow> c = CHR ''#''"
proof (rule ccontr)
  assume l: "lower_char c = CHR ''#''" and n: "c \<noteq> CHR ''#''"
  then have up: "(65 \<le> ord c \<and> ord c \<le> 90) \<or> (192 \<le> ord c \<and> ord c \<le> 222 \<and> ord c \<noteq> 215)"
    and eq: "char_of (ord c + 32) = CHR ''#''"
    by (auto simp: lower_char_def Let_def split: if_splits)
  from eq have "of_char (char_of (ord c + 32) :: char) = (of_char CHR ''#'' :: nat)" by simp
  then have "(ord c + 32) mod 256 = 35" by simp
  moreover have "ord c + 32 < 256" using up by arith
  ultimately have "ord c + 32 = 35" by simp
  with up show False by arith
qed

lemma hashless_simps [simp]:
  "hashless []" "hashless (a @ b) = (hashless a \<and> hashless b)"
  "hashless (c # cs) = (c \<noteq> CHR ''#'' \<and> hashless cs)"
  by (auto simp: hashless_def)

lemma hashless_subset: "set a \<subseteq> set b \<Longrightarrow> hashless b \<Longrightarrow> hashless a"
  by (auto simp: hashless_def)

lemma hashless_takeWhile_hash: "hashless (takeWhile (\<lambda>c. c \<noteq> CHR ''#'') s)"
  by (auto simp: hashless_def dest: set_takeWhileD)

lemma split1_hashless:
  "hashless s \<Longrightarrow> hashless (fst (split1 d s)) \<and> hashless (snd (split1 d s))"
  by (auto simp: split1_def hashless_def dest: set_takeWhileD set_dropWhileD in_set_dropD)

lemma split_scheme_hashless:
  "hashless (fst (split_scheme url))"
proof -
  have "list_all scheme_char pre \<Longrightarrow> hashless (lower pre)" for pre
    by (induction pre) (auto simp: lower_def scheme_char_def ord_def dest: lower_char_hash)
  then show ?thesis by (simp add: split_scheme_def Let_def)
qed

lemma split_netloc_hashless: "hashless (fst (split_netloc url))"
  by (auto simp: split_netloc_def hashless_def dest: set_takeWhileD)

lemma urlsplit_hashless:
  "hashless (url_scheme (urlsplit url))" "hashless (url_netloc (urlsplit url))"
  "hashless (url_path (urlsplit url))" "hashless (url_params (urlsplit url))"
  "hashless (url_query (urlsplit url))"
proof -
  obtain scheme r1 where a: "split_scheme url = (scheme, r1)" by (cases "split_scheme url")
  obtain netloc r2 where b: "split_netloc r1 = (netloc, r2)" by (cases "split_netloc r1")
  define r3 where "r3 = (if CHR ''#'' \<in> set r2 then fst (split1 CHR ''#'' r2) else r2)"
  have h3: "hashless r3"
    unfolding r3_def by (auto simp: split1_def hashless_takeWhile_hash) (simp add: hashless_def)
  have sc: "hashless scheme" using split_scheme_hashless[of url] a by simp
  have nl: "hashless netloc" using split_netloc_hashless[of r1] b by simp
  have eq: "urlsplit url = \<lparr>url_scheme = scheme, url_netloc = netloc,
       url_path = (if CHR ''?'' \<in> set r3 then fst (split1 CHR ''?'' r3) else r3), url_params = '''',
       url_query = (if CHR ''?'' \<in> set r3 then snd (split1 CHR ''?'' r3) else ''''),
       url_fragment = (if CHR ''#'' \<in> set r2 then snd (split1 CHR ''#'' r2) else '''')\<rparr>"
    by (simp add: urlsplit_def a b r3_def Let_def split: prod.splits)
  show "hashless (url_scheme (urlsplit url))" "hashless (url_netloc (urlsplit url))"
    "hashless (url_path (urlsplit url))" "hashless (url_params (urlsplit url))"
    "hashless (url_query (urlsplit url))"
    unfolding eq using sc nl h3 split1_hashless[OF h3, of "CHR ''?''"] by simp_all
qed

lemma splitparams_hashless:
  assumes "hashless p"
  shows "hashless (fst (splitparams p))" "hashless (snd (splitparams p))"
proof -
  have t: "hashless (take n p)" for n
    using assms by (auto simp: hashless_def dest: in_set_takeD)
  have l: "hashless (rev (takeWhile (\<lambda>c. c \<noteq> CHR ''/'') (rev p)))"
    using assms by (auto simp: hashless_def dest: set_takeWhileD)
  show "hashless (fst (splitparams p))" "hashless (snd (splitparams p))"
    using assms t split1_hashless[OF l, of "CHR '';''"] split1_hashless[OF assms, of "CHR '';''"]
    by (auto simp: splitparams_def Let_def)
qed

lemma urlparse_hashless:
  "hashless (url_scheme (urlparse url))" "hashless (url_netloc (urlparse url))"
  "hashless (url_path (urlparse url))" "hashless (url_params (urlparse url))"
  "hashless (url_query (urlparse url))"
  using urlsplit_hashless[of url] splitparams_hashless[of "url_path (urlsplit url)"]
  by (auto simp: urlparse_def Let_def)

lemma urlunparse_hashless:
  assumes "hashless (url_scheme p)" "hashless (url_netloc p)" "hashless (url_path p)"
    "hashless (url_params p)" "hashless (url_query p)" "url_fragment p = []"
  shows "hashless (urlunparse p)"
  using assms by (auto simp: urlunparse_def urlunsplit_def Let_def)

lemma urldefrag_hashless: "hashless (fst (urldefrag url))"
proof (cases "CHR ''#'' \<in> set url")
  case True
  then show ?thesis
    using urlparse_hashless[of url]
    by (simp add: urldefrag_def Let_def urlunparse_hashless)
next
  case False
  then show ?thesis by (simp add: urldefrag_def hashless_def)
qed

lemma urldefrag_idem: "urldefrag (fst (urldefrag url)) = (fst (urldefrag url), '''')"
  using urldefrag_hashless[of url] by (simp add: urldefrag_def[of "fst (urldefrag url)"] hashless_def)

section \<open>Parsing what \<open>urlunparse\<close> wrote\<close>

text \<open>The last path segment and what stands before it, as \<open>_splitparams\<close> sees them.\<close>

lemma takeWhile_takeWhile_imp:
  assumes "\<And>c. P c \<Longrightarrow> Q c"
  shows "takeWhile P (takeWhile Q xs) = takeWhile P xs"
  using assms by (induction xs) auto

lemma dropWhile_takeWhile_imp:
  assumes "\<And>c. P c \<Longrightarrow> Q c"
  shows "dropWhile P (takeWhile Q xs) = takeWhile Q (dropWhile P xs)"
  using assms by (induction xs) auto

lemma split_on_slash_cons:
  "split_on CHR ''/'' (CHR ''/'' # p) = [] # split_on CHR ''/'' p"
  by simp

lemma split_on_nonempty: "split_on d s \<noteq> []"
  by (induction s) (auto split: list.splits)

lemma segs_leading_slash:
  "filter (\<lambda>s. s \<noteq> []) (split_on CHR ''/'' (if CHR ''/'' # p = [] then ''/'' else CHR ''/'' # p)) =
   filter (\<lambda>s. s \<noteq> []) (split_on CHR ''/'' (if p = [] then ''/'' else p))"
  by simp

lemma front_last: "frontseg r @ lastseg r = r"
proof -
  have "rev r = takeWhile (\<lambda>c. c \<noteq> CHR ''/'') (rev r) @ dropWhile (\<lambda>c. c \<noteq> CHR ''/'') (rev r)"
    by simp
  then have r: "r = rev (dropWhile (\<lambda>c. c \<noteq> CHR ''/'') (rev r)) @ lastseg r"
    unfolding lastseg_def by (metis rev_append rev_rev_ident)
  then have "length r - length (lastseg r) = length (rev (dropWhile (\<lambda>c. c \<noteq> CHR ''/'') (rev r)))"
    by (metis add_diff_cancel_right' length_append)
  then have "frontseg r = rev (dropWhile (\<lambda>c. c \<noteq> CHR ''/'') (rev r))"
    unfolding frontseg_def using r by (metis append_eq_conv_conj)
  with r show ?thesis by simp
qed

lemma lastseg_no_slash: "CHR ''/'' \<notin> set (lastseg r)"
  by (auto simp: lastseg_def dest: set_takeWhileD)

lemma takeWhile_absent: "c \<notin> set xs \<Longrightarrow> takeWhile (\<lambda>x. x \<noteq> c) xs = xs"
  by (induction xs) auto

lemma dropWhile_absent: "c \<notin> set xs \<Longrightarrow> dropWhile (\<lambda>x. x \<noteq> c) xs = []"
  by (induction xs) auto

lemma lastseg_all: "CHR ''/'' \<notin> set r \<Longrightarrow> lastseg r = r"
  by (simp add: lastseg_def takeWhile_absent)

lemma lastseg_append:
  assumes "CHR ''/'' \<notin> set t" and "f = [] \<or> last f = CHR ''/''"
  shows "lastseg (f @ t) = t"
proof (cases "f = []")
  case True
  then show ?thesis using assms(1) by (simp add: lastseg_all)
next
  case False
  then obtain g where g: "f = g @ [CHR ''/'']" using assms(2) by (metis append_butlast_last_id)
  have "takeWhile (\<lambda>c. c \<noteq> CHR ''/'') (rev t @ CHR ''/'' # rev g) =
        takeWhile (\<lambda>c. c \<noteq> CHR ''/'') (rev t)"
    by (rule takeWhile_tail) simp
  also have "\<dots> = rev t" using assms(1) by (simp add: takeWhile_absent)
  finally have "takeWhile (\<lambda>c. c \<noteq> CHR ''/'') (rev t @ CHR ''/'' # rev g) = rev t" .
  then show ?thesis by (simp add: lastseg_def g)
qed

lemma frontseg_end: "frontseg r = [] \<or> last (frontseg r) = CHR ''/''"
proof (cases "CHR ''/'' \<in> set r")
  case False
  then have "lastseg r = r" by (rule lastseg_all)
  then show ?thesis by (simp add: frontseg_def)
next
  case True
  show ?thesis
  proof (rule ccontr)
    assume n: "\<not> (frontseg r = [] \<or> last (frontseg r) = CHR ''/'')"
    then have ne: "frontseg r \<noteq> []" and l: "last (frontseg r) \<noteq> CHR ''/''" by auto
    define f where "f = frontseg r"
    define t where "t = lastseg r"
    have r: "r = f @ t" by (simp add: f_def t_def front_last)
    have "rev r = rev t @ rev f" by (simp add: r)
    moreover have "rev f = last f # rev (butlast f)" using ne by (metis f_def rev.simps(2) rev_rev_ident snoc_eq_iff_butlast)
    ultimately have rr: "rev r = rev t @ last f # rev (butlast f)" by simp
    have nt: "\<forall>c\<in>set (rev t). c \<noteq> CHR ''/''" using lastseg_no_slash[of r] by (auto simp: t_def)
    have "takeWhile (\<lambda>c. c \<noteq> CHR ''/'') (rev t @ last f # rev (butlast f)) =
          rev t @ takeWhile (\<lambda>c. c \<noteq> CHR ''/'') (last f # rev (butlast f))"
      by (rule takeWhile_append2) (use nt in blast)
    then have "takeWhile (\<lambda>c. c \<noteq> CHR ''/'') (rev r) =
          rev t @ last f # takeWhile (\<lambda>c. c \<noteq> CHR ''/'') (rev (butlast f))"
      unfolding rr using l by (simp add: f_def)
    then have "length (lastseg r) > length t"
      by (simp add: lastseg_def)
    then show False by (simp add: t_def)
  qed
qed

lemma splitparams_alt:
  "splitparams r =
     (if CHR '';'' \<in> set (lastseg r)
      then (frontseg r @ takeWhile (\<lambda>c. c \<noteq> CHR '';'') (lastseg r),
            drop 1 (dropWhile (\<lambda>c. c \<noteq> CHR '';'') (lastseg r)))
      else (r, ''''))"
proof (cases "CHR ''/'' \<in> set r")
  case True
  then show ?thesis
    by (simp add: splitparams_def Let_def lastseg_def frontseg_def split1_def)
next
  case False
  then have l: "lastseg r = r" by (rule lastseg_all)
  then have f: "frontseg r = []" by (simp add: frontseg_def)
  show ?thesis using False
    by (simp add: splitparams_def l f split1_def takeWhile_absent dropWhile_absent)
qed

lemma dropWhile_present:
  "c \<in> set xs \<Longrightarrow> dropWhile (\<lambda>x. x \<noteq> c) xs = c # drop 1 (dropWhile (\<lambda>x. x \<noteq> c) xs)"
  by (induction xs) auto

lemma split_rejoin:
  "c \<in> set xs \<Longrightarrow> takeWhile (\<lambda>x. x \<noteq> c) xs @ c # drop 1 (dropWhile (\<lambda>x. x \<noteq> c) xs) = xs"
  using dropWhile_present[of c xs] takeWhile_dropWhile_id[of "\<lambda>x. x \<noteq> c" xs] by simp

lemma takeWhile_no_member: "c \<notin> set (takeWhile (\<lambda>x. x \<noteq> c) xs)"
  by (auto dest: set_takeWhileD)

lemma splitparams_rejoin:
  "fst (splitparams (if snd (splitparams r) \<noteq> []
                     then fst (splitparams r) @ '';'' @ snd (splitparams r)
                     else fst (splitparams r)))
   = fst (splitparams r)"
proof (cases "CHR '';'' \<in> set (lastseg r)")
  case False
  then show ?thesis by (simp add: splitparams_alt[of r])
next
  case True
  define L where "L = lastseg r"
  define F where "F = frontseg r"
  define pa where "pa = F @ takeWhile (\<lambda>c. c \<noteq> CHR '';'') L"
  define pm where "pm = drop 1 (dropWhile (\<lambda>c. c \<noteq> CHR '';'') L)"
  have sp: "splitparams r = (pa, pm)"
    using True by (simp add: splitparams_alt[of r] pa_def pm_def L_def F_def)
  show ?thesis
  proof (cases "pm = []")
    case False
    have "pa @ '';'' @ pm = F @ L"
      using split_rejoin[of "CHR '';''" L] True by (simp add: pa_def pm_def L_def)
    then have "pa @ '';'' @ pm = r" by (simp add: F_def L_def front_last)
    then show ?thesis using False by (simp add: sp)
  next
    case empty: True
    have ns: "CHR ''/'' \<notin> set (takeWhile (\<lambda>c. c \<noteq> CHR '';'') L)"
      using lastseg_no_slash[of r] by (auto simp: L_def dest: set_takeWhileD)
    have "lastseg pa = takeWhile (\<lambda>c. c \<noteq> CHR '';'') L"
      unfolding pa_def by (rule lastseg_append[OF ns]) (simp add: F_def frontseg_end)
    then have "CHR '';'' \<notin> set (lastseg pa)" by (simp add: takeWhile_no_member)
    then have "splitparams pa = (pa, '''')" by (simp add: splitparams_alt[of pa])
    then show ?thesis using empty by (simp add: sp)
  qed
qed

lemma lastseg_slash: "lastseg (CHR ''/'' # r) = lastseg r"
proof -
  have "lastseg ((CHR ''/'' # frontseg r) @ lastseg r) = lastseg r"
    by (rule lastseg_append[OF lastseg_no_slash]) (use frontseg_end[of r] in auto)
  then show ?thesis by (simp add: front_last)
qed

lemma frontseg_slash: "frontseg (CHR ''/'' # r) = CHR ''/'' # frontseg r"
proof -
  have "frontseg (CHR ''/'' # r) @ lastseg (CHR ''/'' # r) = (CHR ''/'' # frontseg r) @ lastseg r"
    by (simp add: front_last)
  then show ?thesis by (simp add: lastseg_slash)
qed

lemma splitparams_slash:
  "fst (splitparams (CHR ''/'' # r)) = CHR ''/'' # fst (splitparams r)"
  by (simp add: splitparams_alt[of r] splitparams_alt[of "CHR ''/'' # r"] lastseg_slash frontseg_slash)

lemma splitparams_none: "CHR '';'' \<notin> set r \<Longrightarrow> splitparams r = (r, '''')"
proof -
  assume a: "CHR '';'' \<notin> set r"
  have "set (lastseg r) \<subseteq> set r" by (auto simp: lastseg_def dest: set_takeWhileD)
  with a have "CHR '';'' \<notin> set (lastseg r)" by auto
  then show ?thesis by (simp add: splitparams_alt[of r])
qed

lemma urlparse_alt:
  "urlparse url =
     (let p = urlsplit url
      in if url_scheme p \<in> set uses_params
         then p\<lparr>url_path := fst (splitparams (url_path p)),
                url_params := snd (splitparams (url_path p))\<rparr>
         else p)"
proof -
  have "url_params (urlsplit url) = []"
    by (simp add: urlsplit_def Let_def split: prod.splits)
  then have "CHR '';'' \<notin> set (url_path (urlsplit url)) \<Longrightarrow>
        (urlsplit url)\<lparr>url_path := fst (splitparams (url_path (urlsplit url))),
                url_params := snd (splitparams (url_path (urlsplit url)))\<rparr> = urlsplit url"
    by (simp add: splitparams_none)
  then show ?thesis by (auto simp: urlparse_def Let_def)
qed

text \<open>The scheme.\<close>

lemma split_scheme_alt:
  "split_scheme s =
     (if has_scheme s
      then (lower (takeWhile (\<lambda>c. c \<noteq> CHR '':'') s),
            drop (length (takeWhile (\<lambda>c. c \<noteq> CHR '':'') s) + 1) s)
      else ('''', s))"
  by (simp add: split_scheme_def has_scheme_def Let_def)

lemma no_scheme_start: "s = [] \<or> \<not> ascii_alpha (hd s) \<Longrightarrow> \<not> has_scheme s"
  by (cases s) (auto simp: has_scheme_def)

lemma ord_char_of: "n < 256 \<Longrightarrow> ord (char_of n) = n"
  by (simp add: ord_def)

lemma lower_char_upper:
  assumes "65 \<le> ord c" and "ord c \<le> 90"
  shows "ord (lower_char c) = ord c + 32"
proof -
  have "lower_char c = char_of (ord c + 32)" using assms by (simp add: lower_char_def)
  then show ?thesis using assms by (simp add: ord_char_of)
qed

lemma lower_char_other:
  assumes "\<not> (65 \<le> ord c \<and> ord c \<le> 90)" and "ord c < 192"
  shows "lower_char c = c"
  using assms by (auto simp: lower_char_def)

lemma char_eq_ord: "(c = d) = (ord c = ord d)"
  by (simp add: ord_def)

lemma scheme_char_ord:
  "scheme_char c =
     ((97 \<le> ord c \<and> ord c \<le> 122) \<or> (65 \<le> ord c \<and> ord c \<le> 90) \<or> (48 \<le> ord c \<and> ord c \<le> 57)
      \<or> ord c = 43 \<or> ord c = 45 \<or> ord c = 46)"
proof -
  have "ord CHR ''+'' = 43" "ord CHR ''-'' = 45" "ord CHR ''.'' = 46"
    by (simp_all add: ord_def)
  then have "(c = CHR ''+'') = (ord c = 43)" "(c = CHR ''-'') = (ord c = 45)" "(c = CHR ''.'') = (ord c = 46)"
    by (simp_all only: char_eq_ord[of c])
  then show ?thesis by (simp only: scheme_char_def Let_def)
qed

lemma ascii_alpha_ord:
  "ascii_alpha c = ((97 \<le> ord c \<and> ord c \<le> 122) \<or> (65 \<le> ord c \<and> ord c \<le> 90))"
  by (simp only: ascii_alpha_def Let_def)

lemma lower_char_scheme_all:
  assumes "scheme_char c"
  shows "scheme_char (lower_char c) \<and> lower_char (lower_char c) = lower_char c
         \<and> (ascii_alpha c \<longrightarrow> ascii_alpha (lower_char c)) \<and> lower_char c \<noteq> CHR '':''"
proof (cases "65 \<le> ord c \<and> ord c \<le> 90")
  case True
  have colon: "ord CHR '':'' = 58" by (simp add: ord_def)
  from True have o: "ord (lower_char c) = ord c + 32" by (simp add: lower_char_upper)
  have 1: "scheme_char (lower_char c)" using True by (simp add: scheme_char_ord o)
  have 2: "lower_char (lower_char c) = lower_char c"
    by (rule lower_char_other) (use True o in simp_all)
  have 3: "ascii_alpha (lower_char c)" using True by (simp add: ascii_alpha_ord o)
  have 4: "lower_char c \<noteq> CHR '':''" using True o by (simp add: char_eq_ord colon)
  from 1 2 3 4 show ?thesis by blast
next
  case False
  have colon: "ord CHR '':'' = 58" by (simp add: ord_def)
  from assms have "ord c < 192" by (auto simp: scheme_char_ord)
  with False have l: "lower_char c = c" by (rule lower_char_other)
  have "c \<noteq> CHR '':''" using assms by (auto simp: char_eq_ord colon scheme_char_ord)
  then show ?thesis using assms by (simp add: l)
qed

lemma lower_char_scheme:
  assumes "scheme_char c"
  shows "scheme_char (lower_char c)" and "lower_char (lower_char c) = lower_char c"
    and "ascii_alpha c \<Longrightarrow> ascii_alpha (lower_char c)" and "lower_char c \<noteq> CHR '':''"
  using lower_char_scheme_all[OF assms] by blast+

lemma split_scheme_good:
  "fst (split_scheme s) = [] \<or> good_scheme (fst (split_scheme s))"
proof (cases "has_scheme s")
  case False
  then show ?thesis by (simp add: split_scheme_alt)
next
  case True
  define pre where "pre = takeWhile (\<lambda>c. c \<noteq> CHR '':'') s"
  from True have p: "pre \<noteq> []" "ascii_alpha (hd pre)" "list_all scheme_char pre"
    by (simp_all add: has_scheme_def pre_def Let_def)
  have a: "list_all scheme_char (lower pre)"
    using p(3) by (induction pre) (simp_all add: lower_def lower_char_scheme)
  have b: "lower (lower pre) = lower pre"
    using p(3) by (induction pre) (simp_all add: lower_def lower_char_scheme)
  have c: "CHR '':'' \<notin> set (lower pre)"
    using p(3) by (induction pre) (auto simp: lower_def dest: lower_char_scheme(4))
  have d: "ascii_alpha (hd (lower pre))"
    using p by (cases pre) (simp_all add: lower_def lower_char_scheme)
  have "good_scheme (lower pre)"
    using p(1) a b c d by (simp add: good_scheme_def lower_def)
  then show ?thesis using True by (simp add: split_scheme_alt pre_def)
qed

lemma split_scheme_build:
  assumes "good_scheme sc"
  shows "split_scheme (sc @ '':'' @ rest) = (sc, rest)"
proof -
  have t: "takeWhile (\<lambda>c. c \<noteq> CHR '':'') (sc @ CHR '':'' # rest) = sc"
  proof -
    have "takeWhile (\<lambda>c. c \<noteq> CHR '':'') (sc @ CHR '':'' # rest) =
          takeWhile (\<lambda>c. c \<noteq> CHR '':'') sc"
      by (rule takeWhile_tail) simp
    then show ?thesis using assms by (simp add: good_scheme_def takeWhile_absent)
  qed
  have "has_scheme (sc @ CHR '':'' # rest)"
    using assms by (simp add: has_scheme_def t good_scheme_def Let_def)
  then show ?thesis using assms by (simp add: split_scheme_alt t good_scheme_def)
qed

text \<open>The network location.\<close>

lemma split_netloc_alt:
  "split_netloc r =
     (if take 2 r = ''//''
      then (takeWhile (\<lambda>c. \<not> delim c) (drop 2 r), dropWhile (\<lambda>c. \<not> delim c) (drop 2 r))
      else ('''', r))"
  by (simp add: split_netloc_def delim_def)

lemma takeWhile_stop:
  assumes "\<forall>c\<in>set xs. P c" and "ys = [] \<or> \<not> P (hd ys)"
  shows "takeWhile P (xs @ ys) = xs" and "dropWhile P (xs @ ys) = ys"
proof -
  have a: "takeWhile P ys = []" "dropWhile P ys = ys" using assms(2) by (cases ys; simp)+
  show "takeWhile P (xs @ ys) = xs" using assms(1) a by (simp add: takeWhile_append2)
  show "dropWhile P (xs @ ys) = ys" using assms(1) a by (simp add: dropWhile_append2)
qed

lemma split_netloc_build:
  assumes "\<forall>c\<in>set nl. \<not> delim c" and "rest = [] \<or> delim (hd rest)"
  shows "split_netloc (''//'' @ nl @ rest) = (nl, rest)"
  using takeWhile_stop[of nl "\<lambda>c. \<not> delim c" rest] assms by (simp add: split_netloc_alt)

lemma split_netloc_parts:
  assumes "split_netloc r = (nl, r2)"
  shows "\<forall>c\<in>set nl. \<not> delim c"
    and "take 2 r = ''//'' \<Longrightarrow> r = ''//'' @ nl @ r2 \<and> (r2 = [] \<or> delim (hd r2))"
    and "take 2 r \<noteq> ''//'' \<Longrightarrow> nl = [] \<and> r2 = r"
proof -
  show "\<forall>c\<in>set nl. \<not> delim c"
    using assms by (auto simp: split_netloc_alt split: if_splits dest: set_takeWhileD)
  show "nl = [] \<and> r2 = r" if "take 2 r \<noteq> ''//''"
    using assms that by (simp add: split_netloc_alt)
  show "r = ''//'' @ nl @ r2 \<and> (r2 = [] \<or> delim (hd r2))" if t: "take 2 r = ''//''"
  proof -
    from assms t have nl: "nl = takeWhile (\<lambda>c. \<not> delim c) (drop 2 r)"
      and r2: "r2 = dropWhile (\<lambda>c. \<not> delim c) (drop 2 r)"
      by (simp_all add: split_netloc_alt)
    have "r = take 2 r @ drop 2 r" by simp
    then have "r = ''//'' @ nl @ r2" unfolding nl r2 t[symmetric] by simp
    moreover have "r2 = [] \<or> delim (hd r2)"
      unfolding r2 using hd_dropWhile[of "\<lambda>c. \<not> delim c" "drop 2 r"] by auto
    ultimately show ?thesis by blast
  qed
qed

text \<open>A fragment changes nothing of what \<open>urlparse\<close> returns but the fragment.\<close>

lemma not_scheme_char:
  "\<not> scheme_char CHR ''#''" "\<not> scheme_char CHR ''?''" "\<not> scheme_char CHR '';''"
  "\<not> scheme_char CHR ''/''"
  by (simp_all add: scheme_char_ord ord_def)

lemma delim_not_alpha: "delim c \<Longrightarrow> \<not> ascii_alpha c"
  by (auto simp: delim_def ascii_alpha_ord ord_def)

lemma has_scheme_cut:
  assumes "\<not> scheme_char c" and "c \<noteq> CHR '':''"
  shows "has_scheme (a @ c # b) = has_scheme a"
proof (cases "CHR '':'' \<in> set a")
  case True
  have "takeWhile (\<lambda>c. c \<noteq> CHR '':'') (a @ c # b) = takeWhile (\<lambda>c. c \<noteq> CHR '':'') a"
    by (rule takeWhile_append1[OF True]) simp
  then show ?thesis using True by (simp add: has_scheme_def)
next
  case False
  have "takeWhile (\<lambda>c. c \<noteq> CHR '':'') (a @ c # b) =
        a @ takeWhile (\<lambda>c. c \<noteq> CHR '':'') (c # b)"
    by (rule takeWhile_append2) (use False in auto)
  then have "takeWhile (\<lambda>c. c \<noteq> CHR '':'') (a @ c # b) =
             a @ c # takeWhile (\<lambda>c. c \<noteq> CHR '':'') b"
    using assms(2) by simp
  then have "\<not> has_scheme (a @ c # b)" using assms(1) by (simp add: has_scheme_def Let_def)
  moreover have "\<not> has_scheme a" using False by (simp add: has_scheme_def Let_def)
  ultimately show ?thesis by simp
qed

lemma length_takeWhile_less:
  "c \<in> set xs \<Longrightarrow> length (takeWhile (\<lambda>x. x \<noteq> c) xs) < length xs"
  by (induction xs) auto

lemma split_scheme_frag:
  assumes "hashless v"
  shows "split_scheme (v @ CHR ''#'' # f) =
         (fst (split_scheme v), snd (split_scheme v) @ CHR ''#'' # f)"
proof (cases "has_scheme v")
  case False
  then have "\<not> has_scheme (v @ CHR ''#'' # f)" by (simp add: has_scheme_cut not_scheme_char)
  with False show ?thesis by (simp add: split_scheme_alt)
next
  case True
  then have c: "CHR '':'' \<in> set v" by (simp add: has_scheme_def Let_def)
  have h: "has_scheme (v @ CHR ''#'' # f)" using True by (simp add: has_scheme_cut not_scheme_char)
  have t: "takeWhile (\<lambda>c. c \<noteq> CHR '':'') (v @ CHR ''#'' # f) = takeWhile (\<lambda>c. c \<noteq> CHR '':'') v"
    by (rule takeWhile_append1[OF c]) simp
  have "length (takeWhile (\<lambda>c. c \<noteq> CHR '':'') v) < length v" using c by (rule length_takeWhile_less)
  then have d: "Suc (length (takeWhile (\<lambda>c. c \<noteq> CHR '':'') v)) - length v = 0"
    by simp
  show ?thesis using True h by (simp add: split_scheme_alt t d)
qed

lemma split_scheme_rest_hashless: "hashless v \<Longrightarrow> hashless (snd (split_scheme v))"
  by (auto simp: split_scheme_def Let_def hashless_def dest: in_set_dropD)

lemma split_netloc_rest_hashless: "hashless r \<Longrightarrow> hashless (snd (split_netloc r))"
  by (auto simp: split_netloc_def hashless_def dest: set_dropWhileD in_set_dropD)

lemma take2_frag:
  assumes "hashless r"
  shows "(take 2 (r @ CHR ''#'' # f) = ''//'') = (take 2 r = ''//'')"
  using assms by (cases r rule: remdups_adj.cases) auto

lemma take2_length: "take 2 r = ''//'' \<Longrightarrow> 2 \<le> length r"
  by (cases r rule: remdups_adj.cases) auto

lemma split_netloc_frag:
  assumes "hashless r"
  shows "split_netloc (r @ CHR ''#'' # f) =
         (fst (split_netloc r), snd (split_netloc r) @ CHR ''#'' # f)"
proof (cases "take 2 r = ''//''")
  case False
  then have "take 2 (r @ CHR ''#'' # f) \<noteq> ''//''" using take2_frag[OF assms] by simp
  with False show ?thesis by (simp add: split_netloc_alt)
next
  case True
  then have t: "take 2 (r @ CHR ''#'' # f) = ''//''" using take2_frag[OF assms] by simp
  from True have "2 \<le> length r" by (rule take2_length)
  then have d: "drop 2 (r @ CHR ''#'' # f) = drop 2 r @ CHR ''#'' # f" by simp
  have a: "takeWhile (\<lambda>c. \<not> delim c) (drop 2 r @ CHR ''#'' # f) =
           takeWhile (\<lambda>c. \<not> delim c) (drop 2 r)"
    by (rule takeWhile_tail) (simp add: delim_def)
  have b: "dropWhile (\<lambda>c. \<not> delim c) (drop 2 r @ CHR ''#'' # f) =
           dropWhile (\<lambda>c. \<not> delim c) (drop 2 r) @ CHR ''#'' # f"
    by (rule dropWhile_append3) (simp add: delim_def)
  have "split_netloc (r @ CHR ''#'' # f) =
        (takeWhile (\<lambda>c. \<not> delim c) (drop 2 r), dropWhile (\<lambda>c. \<not> delim c) (drop 2 r) @ CHR ''#'' # f)"
    unfolding split_netloc_alt[of "r @ CHR ''#'' # f"] using t by (simp only: d a b simp_thms if_True)
  moreover have "split_netloc r =
        (takeWhile (\<lambda>c. \<not> delim c) (drop 2 r), dropWhile (\<lambda>c. \<not> delim c) (drop 2 r))"
    unfolding split_netloc_alt[of r] using True by (simp only: simp_thms if_True)
  ultimately show ?thesis by simp
qed

lemma urlsplit_alt:
  "urlsplit url =
     (let r2 = snd (split_netloc (snd (split_scheme url)));
          r3 = takeWhile (\<lambda>c. c \<noteq> CHR ''#'') r2
      in \<lparr>url_scheme = fst (split_scheme url),
          url_netloc = fst (split_netloc (snd (split_scheme url))),
          url_path = takeWhile (\<lambda>c. c \<noteq> CHR ''?'') r3, url_params = '''',
          url_query = drop 1 (dropWhile (\<lambda>c. c \<noteq> CHR ''?'') r3),
          url_fragment = drop 1 (dropWhile (\<lambda>c. c \<noteq> CHR ''#'') r2)\<rparr>)"
proof -
  obtain scheme r1 where a: "split_scheme url = (scheme, r1)" by (cases "split_scheme url")
  obtain netloc r2 where b: "split_netloc r1 = (netloc, r2)" by (cases "split_netloc r1")
  have f: "(if d \<in> set r then split1 d r else (r, '''')) =
           (takeWhile (\<lambda>c. c \<noteq> d) r, drop 1 (dropWhile (\<lambda>c. c \<noteq> d) r))" for d r
    by (simp add: split1_def takeWhile_absent dropWhile_absent)
  show ?thesis by (simp add: urlsplit_def a b f Let_def)
qed

lemma takeWhile_hashless: "hashless r \<Longrightarrow> takeWhile (\<lambda>c. c \<noteq> CHR ''#'') r = r"
  by (simp add: hashless_def takeWhile_absent)

lemma dropWhile_hashless: "hashless r \<Longrightarrow> dropWhile (\<lambda>c. c \<noteq> CHR ''#'') r = []"
  by (simp add: hashless_def dropWhile_absent)

lemma urlsplit_frag:
  assumes "hashless v"
  shows "urlsplit (v @ CHR ''#'' # f) = (urlsplit v)\<lparr>url_fragment := f\<rparr>"
    and "url_fragment (urlsplit v) = []"
proof -
  let ?r1 = "snd (split_scheme v)"
  let ?r2 = "snd (split_netloc ?r1)"
  have h1: "hashless ?r1" using assms by (rule split_scheme_rest_hashless)
  have h2: "hashless ?r2" using h1 by (rule split_netloc_rest_hashless)
  have t: "takeWhile (\<lambda>c. c \<noteq> CHR ''#'') (?r2 @ CHR ''#'' # f) = ?r2"
    using takeWhile_tail[of "\<lambda>c. c \<noteq> CHR ''#''" "CHR ''#''" ?r2 f] h2
    by (simp add: takeWhile_hashless)
  have d: "dropWhile (\<lambda>c. c \<noteq> CHR ''#'') (?r2 @ CHR ''#'' # f) = CHR ''#'' # f"
    using dropWhile_append3[of "\<lambda>c. c \<noteq> CHR ''#''" "CHR ''#''" ?r2 f] h2
    by (simp add: dropWhile_hashless)
  show "urlsplit (v @ CHR ''#'' # f) = (urlsplit v)\<lparr>url_fragment := f\<rparr>"
    by (simp add: urlsplit_alt[of "v @ CHR ''#'' # f"] urlsplit_alt[of v] Let_def
        split_scheme_frag[OF assms] split_netloc_frag[OF h1] t d takeWhile_hashless[OF h2])
  show "url_fragment (urlsplit v) = []"
    by (simp add: urlsplit_alt[of v] Let_def dropWhile_hashless[OF h2])
qed

lemma urlparse_frag:
  assumes "hashless v"
  shows "urlparse (v @ CHR ''#'' # f) = (urlparse v)\<lparr>url_fragment := f\<rparr>"
    and "url_fragment (urlparse v) = []"
  by (simp_all add: urlparse_alt Let_def urlsplit_frag[OF assms])

lemma urldefrag_frag:
  assumes "hashless v"
  shows "urldefrag (v @ CHR ''#'' # f) = (urlunparse (urlparse v), f)"
proof -
  have "(urlparse v)\<lparr>url_fragment := ''''\<rparr> = urlparse v"
    using urlparse_frag(2)[OF assms] by simp
  then show ?thesis by (simp add: urldefrag_def Let_def urlparse_frag(1)[OF assms])
qed

lemma urldefrag_plain: "hashless v \<Longrightarrow> urldefrag v = (v, '''')"
  by (simp add: urldefrag_def hashless_def)

text \<open>Parsing what \<open>urlunparse\<close> wrote from a parsed URL.\<close>

lemma splitparams_parts:
  "(r = fst (splitparams r) \<and> snd (splitparams r) = []) \<or>
   r = fst (splitparams r) @ CHR '';'' # snd (splitparams r)"
proof (cases "CHR '';'' \<in> set (lastseg r)")
  case False
  then show ?thesis by (simp add: splitparams_alt[of r])
next
  case True
  have "lastseg r = takeWhile (\<lambda>c. c \<noteq> CHR '';'') (lastseg r) @
          CHR '';'' # drop 1 (dropWhile (\<lambda>c. c \<noteq> CHR '';'') (lastseg r))"
    using split_rejoin[OF True] by simp
  then have "frontseg r @ lastseg r = (frontseg r @ takeWhile (\<lambda>c. c \<noteq> CHR '';'') (lastseg r)) @
          CHR '';'' # drop 1 (dropWhile (\<lambda>c. c \<noteq> CHR '';'') (lastseg r))"
    by simp
  then have "r = (frontseg r @ takeWhile (\<lambda>c. c \<noteq> CHR '';'') (lastseg r)) @
          CHR '';'' # drop 1 (dropWhile (\<lambda>c. c \<noteq> CHR '';'') (lastseg r))"
    by (simp only: front_last)
  then show ?thesis using True by (simp only: splitparams_alt[of r] if_True fst_conv snd_conv simp_thms)
qed

lemma splitparams_subset:
  "set (fst (splitparams r)) \<subseteq> set r" "set (snd (splitparams r)) \<subseteq> set r"
proof -
  obtain a b where sp: "splitparams r = (a, b)" by (cases "splitparams r")
  from splitparams_parts[of r] have "(r = a \<and> b = []) \<or> r = a @ CHR '';'' # b" by (simp add: sp)
  then show "set (fst (splitparams r)) \<subseteq> set r" "set (snd (splitparams r)) \<subseteq> set r"
    by (auto simp: sp)
qed

lemma has_scheme_takeWhile:
  assumes "\<not> scheme_char c" and "c \<noteq> CHR '':''"
  shows "has_scheme (takeWhile (\<lambda>x. x \<noteq> c) r) = has_scheme r"
proof (cases "c \<in> set r")
  case False
  then show ?thesis by (simp add: takeWhile_absent)
next
  case True
  have "has_scheme (takeWhile (\<lambda>x. x \<noteq> c) r @ c # drop 1 (dropWhile (\<lambda>x. x \<noteq> c) r)) =
        has_scheme (takeWhile (\<lambda>x. x \<noteq> c) r)"
    by (rule has_scheme_cut[OF assms])
  then show ?thesis by (simp only: split_rejoin[OF True])
qed

lemma has_scheme_splitparams: "has_scheme (fst (splitparams r)) = has_scheme r"
proof -
  obtain a b where sp: "splitparams r = (a, b)" by (cases "splitparams r")
  from splitparams_parts[of r] have "(r = a \<and> b = []) \<or> r = a @ CHR '';'' # b" by (simp add: sp)
  then show ?thesis by (auto simp: sp has_scheme_cut not_scheme_char)
qed

lemma split_netloc_no_scheme:
  assumes "\<not> has_scheme r"
  shows "\<not> has_scheme (snd (split_netloc r))"
proof (cases "take 2 r = ''//''")
  case True
  obtain nl r2 where s: "split_netloc r = (nl, r2)" by (cases "split_netloc r")
  from split_netloc_parts(2)[OF s True] have "r2 = [] \<or> delim (hd r2)" by simp
  then have "r2 = [] \<or> \<not> ascii_alpha (hd r2)" by (auto dest: delim_not_alpha)
  then have "\<not> has_scheme r2" by (rule no_scheme_start)
  then show ?thesis by (simp add: s)
next
  case False
  then show ?thesis using assms by (simp add: split_netloc_alt)
qed

lemma urlsplit_build:
  assumes sc: "sc = [] \<or> good_scheme sc"
    and ns: "sc = [] \<Longrightarrow> \<not> has_scheme rest"
    and nl: "split_netloc rest = (nl, X @ (if qy \<noteq> [] then CHR ''?'' # qy else []))"
    and X: "CHR ''?'' \<notin> set X" "hashless X" and qy: "hashless qy"
  shows "urlsplit (if sc \<noteq> [] then sc @ CHR '':'' # rest else rest) =
         \<lparr>url_scheme = sc, url_netloc = nl, url_path = X, url_params = '''',
          url_query = qy, url_fragment = ''''\<rparr>"
proof -
  let ?w = "if sc \<noteq> [] then sc @ CHR '':'' # rest else rest"
  let ?qs = "if qy \<noteq> [] then CHR ''?'' # qy else []"
  have s: "split_scheme ?w = (sc, rest)"
  proof (cases "sc = []")
    case True
    then show ?thesis using ns by (simp add: split_scheme_alt)
  next
    case False
    then have "good_scheme sc" using sc by simp
    from split_scheme_build[OF this, of rest] show ?thesis using False by simp
  qed
  have h: "hashless (X @ ?qs)" using X qy by simp
  have t: "takeWhile (\<lambda>c. c \<noteq> CHR ''?'') (X @ ?qs) = X"
    by (rule takeWhile_stop(1)) (use X in auto)
  have "dropWhile (\<lambda>c. c \<noteq> CHR ''?'') (X @ ?qs) = ?qs"
    by (rule takeWhile_stop(2)) (use X in auto)
  then have d: "drop 1 (dropWhile (\<lambda>c. c \<noteq> CHR ''?'') (X @ ?qs)) = qy" by simp
  have "urlsplit ?w =
     (let r2 = X @ ?qs; r3 = takeWhile (\<lambda>c. c \<noteq> CHR ''#'') r2
      in \<lparr>url_scheme = sc, url_netloc = nl,
          url_path = takeWhile (\<lambda>c. c \<noteq> CHR ''?'') r3, url_params = '''',
          url_query = drop 1 (dropWhile (\<lambda>c. c \<noteq> CHR ''?'') r3),
          url_fragment = drop 1 (dropWhile (\<lambda>c. c \<noteq> CHR ''#'') r2)\<rparr>)"
    unfolding urlsplit_alt[of ?w] s fst_conv snd_conv nl ..
  then show ?thesis
    by (simp only: Let_def takeWhile_hashless[OF h] dropWhile_hashless[OF h] t d drop.simps)
qed

lemma urlunsplit_form:
  "urlunsplit \<lparr>url_scheme = sc, url_netloc = nl, url_path = u0, url_params = pr,
               url_query = qy, url_fragment = ''''\<rparr> =
     (let cond = (nl \<noteq> [] \<or> (sc \<noteq> [] \<and> sc \<in> set uses_netloc) \<or> take 2 u0 = ''//'');
          X = (if cond \<and> u0 \<noteq> [] \<and> take 1 u0 \<noteq> ''/'' then CHR ''/'' # u0 else u0);
          rest = (if cond then ''//'' @ nl @ X else X) @ (if qy \<noteq> [] then CHR ''?'' # qy else [])
      in if sc \<noteq> [] then sc @ CHR '':'' # rest else rest)"
proof -
  define cond where "cond = (nl \<noteq> [] \<or> (sc \<noteq> [] \<and> sc \<in> set uses_netloc) \<or> take 2 u0 = ''//'')"
  define lead where "lead = (u0 \<noteq> [] \<and> take 1 u0 \<noteq> ''/'')"
  have "urlunsplit \<lparr>url_scheme = sc, url_netloc = nl, url_path = u0, url_params = pr,
               url_query = qy, url_fragment = ''''\<rparr> =
     (let u1 = (if cond then ''//'' @ nl @ (if lead then ''/'' @ u0 else u0) else u0);
          u2 = (if sc \<noteq> [] then sc @ '':'' @ u1 else u1)
      in if qy \<noteq> [] then u2 @ ''?'' @ qy else u2)"
    by (simp add: urlunsplit_def Let_def cond_def lead_def)
  also have "\<dots> =
     (let X = (if cond \<and> lead then CHR ''/'' # u0 else u0);
          rest = (if cond then ''//'' @ nl @ X else X) @ (if qy \<noteq> [] then CHR ''?'' # qy else [])
      in if sc \<noteq> [] then sc @ CHR '':'' # rest else rest)"
    by (cases cond; cases lead; cases "qy = []"; cases "sc = []") (simp_all add: Let_def)
  finally show ?thesis by (simp only: Let_def cond_def lead_def)
qed

lemma urlunparse_form:
  "urlunparse \<lparr>url_scheme = sc, url_netloc = nl, url_path = pa, url_params = pr,
               url_query = qy, url_fragment = ''''\<rparr> =
     (let u0 = (if pr \<noteq> [] then pa @ CHR '';'' # pr else pa);
          cond = (nl \<noteq> [] \<or> (sc \<noteq> [] \<and> sc \<in> set uses_netloc) \<or> take 2 u0 = ''//'');
          X = (if cond \<and> u0 \<noteq> [] \<and> take 1 u0 \<noteq> ''/'' then CHR ''/'' # u0 else u0);
          rest = (if cond then ''//'' @ nl @ X else X) @ (if qy \<noteq> [] then CHR ''?'' # qy else [])
      in if sc \<noteq> [] then sc @ CHR '':'' # rest else rest)"
proof -
  have "urlunparse \<lparr>url_scheme = sc, url_netloc = nl, url_path = pa, url_params = pr,
               url_query = qy, url_fragment = ''''\<rparr> =
        urlunsplit \<lparr>url_scheme = sc, url_netloc = nl,
               url_path = (if pr \<noteq> [] then pa @ CHR '';'' # pr else pa), url_params = pr,
               url_query = qy, url_fragment = ''''\<rparr>"
    by (simp add: urlunparse_def)
  then show ?thesis by (simp only: urlunsplit_form Let_def)
qed

lemma split_netloc_rebuilt:
  assumes nl: "\<forall>c\<in>set nl. \<not> delim c"
    and c: "\<not> cond \<Longrightarrow> nl = [] \<and> take 2 u0 \<noteq> ''//''"
    and X: "X = (if cond \<and> u0 \<noteq> [] \<and> take 1 u0 \<noteq> ''/'' then CHR ''/'' # u0 else u0)"
  shows "split_netloc ((if cond then ''//'' @ nl @ X else X) @ (if qy \<noteq> [] then CHR ''?'' # qy else []))
         = (nl, X @ (if qy \<noteq> [] then CHR ''?'' # qy else []))"
proof (cases cond)
  case True
  let ?rest = "X @ (if qy \<noteq> [] then CHR ''?'' # qy else [])"
  have "X = [] \<or> hd X = CHR ''/''"
    unfolding X using True by (cases u0) auto
  then have "?rest = [] \<or> delim (hd ?rest)"
    by (cases X) (auto simp: delim_def)
  from split_netloc_build[OF nl this] show ?thesis using True by simp
next
  case False
  with c have n: "nl = []" and t: "take 2 u0 \<noteq> ''//''" by auto
  from False X have x: "X = u0" by simp
  have "take 2 (u0 @ (if qy \<noteq> [] then CHR ''?'' # qy else [])) \<noteq> ''//''"
    using t by (cases u0 rule: remdups_adj.cases) auto
  then show ?thesis using False by (simp add: split_netloc_alt n x)
qed

lemma reparse_path:
  assumes "hashless v"
  shows "url_path (urlparse (urlunparse (urlparse v))) = url_path (urlparse v) \<or>
         url_path (urlparse (urlunparse (urlparse v))) = CHR ''/'' # url_path (urlparse v)"
proof -
  define sc where "sc = fst (split_scheme v)"
  define r1 where "r1 = snd (split_scheme v)"
  define nl where "nl = fst (split_netloc r1)"
  define r2 where "r2 = snd (split_netloc r1)"
  define path0 where "path0 = takeWhile (\<lambda>c. c \<noteq> CHR ''?'') r2"
  define qy where "qy = drop 1 (dropWhile (\<lambda>c. c \<noteq> CHR ''?'') r2)"
  define pa where "pa = (if sc \<in> set uses_params then fst (splitparams path0) else path0)"
  define pr where "pr = (if sc \<in> set uses_params then snd (splitparams path0) else [])"
  define u0 where "u0 = (if pr \<noteq> [] then pa @ CHR '';'' # pr else pa)"
  define cond where "cond = (nl \<noteq> [] \<or> (sc \<noteq> [] \<and> sc \<in> set uses_netloc) \<or> take 2 u0 = ''//'')"
  define X where "X = (if cond \<and> u0 \<noteq> [] \<and> take 1 u0 \<noteq> ''/'' then CHR ''/'' # u0 else u0)"
  define rest where "rest = (if cond then ''//'' @ nl @ X else X) @ (if qy \<noteq> [] then CHR ''?'' # qy else [])"
  have h1: "hashless r1" unfolding r1_def using assms by (rule split_scheme_rest_hashless)
  have h2: "hashless r2" unfolding r2_def using h1 by (rule split_netloc_rest_hashless)
  have "urlsplit v =
     (let r3 = takeWhile (\<lambda>c. c \<noteq> CHR ''#'') r2
      in \<lparr>url_scheme = sc, url_netloc = nl,
          url_path = takeWhile (\<lambda>c. c \<noteq> CHR ''?'') r3, url_params = '''',
          url_query = drop 1 (dropWhile (\<lambda>c. c \<noteq> CHR ''?'') r3),
          url_fragment = drop 1 (dropWhile (\<lambda>c. c \<noteq> CHR ''#'') r2)\<rparr>)"
    unfolding urlsplit_alt[of v] sc_def nl_def r1_def r2_def Let_def ..
  then have us: "urlsplit v = \<lparr>url_scheme = sc, url_netloc = nl, url_path = path0, url_params = '''',
          url_query = qy, url_fragment = ''''\<rparr>"
    by (simp only: Let_def takeWhile_hashless[OF h2] dropWhile_hashless[OF h2] path0_def qy_def drop.simps)
  have up: "urlparse v = \<lparr>url_scheme = sc, url_netloc = nl, url_path = pa, url_params = pr,
          url_query = qy, url_fragment = ''''\<rparr>"
    by (simp add: urlparse_alt us Let_def pa_def pr_def)
  have w: "urlunparse (urlparse v) = (if sc \<noteq> [] then sc @ CHR '':'' # rest else rest)"
    unfolding up urlunparse_form Let_def rest_def X_def cond_def u0_def ..
  have gs: "sc = [] \<or> good_scheme sc" unfolding sc_def by (rule split_scheme_good)
  have snl: "split_netloc r1 = (nl, r2)" by (simp add: nl_def r2_def)
  have nld: "\<forall>c\<in>set nl. \<not> delim c" using snl by (rule split_netloc_parts(1))
  have p0: "CHR ''?'' \<notin> set path0" unfolding path0_def by (rule takeWhile_no_member)
  have hp0: "hashless path0"
    using h2 by (auto simp: path0_def hashless_def dest: set_takeWhileD)
  have hq: "hashless qy" using urlsplit_hashless(5)[of v] by (simp add: us)
  have sub: "set pa \<subseteq> set path0" "set pr \<subseteq> set path0"
    using splitparams_subset[of path0] by (auto simp: pa_def pr_def)
  have u0c: "CHR ''?'' \<notin> set u0" "hashless u0"
    using sub p0 hp0 by (auto simp: u0_def hashless_def)
  have Xc: "CHR ''?'' \<notin> set X" "hashless X"
    using u0c by (auto simp: X_def hashless_def)
  have sn: "split_netloc rest = (nl, X @ (if qy \<noteq> [] then CHR ''?'' # qy else []))"
    unfolding rest_def by (rule split_netloc_rebuilt[OF nld _ X_def]) (simp add: cond_def)
  have ns: "\<not> has_scheme rest" if e: "sc = []"
  proof (cases cond)
    case True
    have "rest = [] \<or> \<not> ascii_alpha (hd rest)"
      using True by (simp add: rest_def ascii_alpha_ord ord_def)
    then show ?thesis by (rule no_scheme_start)
  next
    case False
    have nv: "\<not> has_scheme v"
      using e by (auto simp: sc_def split_scheme_alt lower_def has_scheme_def Let_def split: if_splits)
    then have rv: "r1 = v" by (simp add: r1_def split_scheme_alt)
    have "\<not> has_scheme r2" unfolding r2_def rv using nv by (rule split_netloc_no_scheme)
    then have "\<not> has_scheme path0" by (simp add: path0_def has_scheme_takeWhile not_scheme_char)
    moreover have "sc \<in> set uses_params" using e by (simp add: uses_params_def)
    ultimately have "\<not> has_scheme pa" by (simp add: pa_def has_scheme_splitparams)
    then have "\<not> has_scheme u0" by (simp add: u0_def has_scheme_cut not_scheme_char)
    then have "\<not> has_scheme (u0 @ (if qy \<noteq> [] then CHR ''?'' # qy else []))"
      by (simp add: has_scheme_cut not_scheme_char)
    then show ?thesis using False by (simp add: rest_def X_def)
  qed
  have us': "urlsplit (urlunparse (urlparse v)) =
        \<lparr>url_scheme = sc, url_netloc = nl, url_path = X, url_params = '''',
         url_query = qy, url_fragment = ''''\<rparr>"
    unfolding w using gs ns sn Xc hq by (rule urlsplit_build)
  have pp: "url_path (urlparse (urlunparse (urlparse v))) =
        (if sc \<in> set uses_params then fst (splitparams X) else X)"
    by (simp add: urlparse_alt[of "urlunparse (urlparse v)"] us' Let_def)
  have X2: "X = u0 \<or> X = CHR ''/'' # u0" by (simp add: X_def)
  have pv: "url_path (urlparse v) = pa" by (simp add: up)
  show ?thesis
  proof (cases "sc \<in> set uses_params")
    case True
    have "fst (splitparams u0) = pa"
      using splitparams_rejoin[of path0] True by (simp add: u0_def pa_def pr_def split: if_splits)
    then have "fst (splitparams X) = pa \<or> fst (splitparams X) = CHR ''/'' # pa"
      using X2 by (auto simp: splitparams_slash)
    then show ?thesis using True by (simp add: pp pv)
  next
    case False
    then have "u0 = pa" by (simp add: u0_def pr_def)
    then show ?thesis using X2 False by (auto simp: pp pv)
  qed
qed

lemma url_segs_reparse:
  assumes "hashless v"
  shows "url_segs (urlunparse (urlparse v)) = url_segs v"
proof -
  from reparse_path[OF assms]
  have "filter (\<lambda>s. s \<noteq> []) (split_on CHR ''/'' (path_or_root (urlunparse (urlparse v)))) =
        filter (\<lambda>s. s \<noteq> []) (split_on CHR ''/'' (path_or_root v))"
  proof
    assume "url_path (urlparse (urlunparse (urlparse v))) = url_path (urlparse v)"
    then show ?thesis by (simp add: path_or_root_def)
  next
    assume "url_path (urlparse (urlunparse (urlparse v))) = CHR ''/'' # url_path (urlparse v)"
    then show ?thesis by (simp add: path_or_root_def Let_def)
  qed
  then show ?thesis by (simp add: url_segs_def)
qed

lemma stem_of_fragment:
  assumes "hashless v"
  shows "stem_for_url (v @ CHR ''#'' # f) =
         stem_for_url v @ (if f = [] then [] else ''__'' @ slugify f)"
    and "stem_for_url (fst (urldefrag (v @ CHR ''#'' # f))) = stem_for_url v"
proof -
  have h: "hashless (urlunparse (urlparse v))"
    using urldefrag_hashless[of "v @ CHR ''#'' # f"] by (simp add: urldefrag_frag[OF assms])
  show "stem_for_url (v @ CHR ''#'' # f) =
         stem_for_url v @ (if f = [] then [] else ''__'' @ slugify f)"
    by (simp add: stem_for_url_def urldefrag_frag[OF assms] urldefrag_plain[OF assms]
        url_segs_reparse[OF assms] Let_def)
  show "stem_for_url (fst (urldefrag (v @ CHR ''#'' # f))) = stem_for_url v"
    by (simp add: stem_for_url_def urldefrag_frag[OF assms] urldefrag_plain[OF assms]
        urldefrag_plain[OF h] url_segs_reparse[OF assms] Let_def)
qed

text \<open>
  Claim C6. Let \<open>u\<close> and \<open>v\<close> be two URLs that differ only by the fragment, \<open>v\<close> being the
  one without: \<open>v\<close> is the text of \<open>u\<close> before its first \<open>#\<close>. Then the stem that
  \<open>path_for_url\<close> gives \<open>v\<close> is a prefix of the stem it gives \<open>u\<close>: the stem of \<open>u\<close> is the
  stem of \<open>v\<close>, followed by \<open>__\<close> and the sanitized fragment when \<open>u\<close> has a fragment, the
  text after the first \<open>#\<close>. The URL that \<open>urldefrag\<close> returns for \<open>u\<close>, which may be written
  differently from \<open>v\<close>, has the stem of \<open>v\<close> too. The output directory plays no part in the
  stem.
\<close>

theorem stem_fragment_suffix:
  assumes "takeWhile (\<lambda>c. c \<noteq> CHR ''#'') u = v"
  shows "snd (path_for_url u base_dir) =
           snd (path_for_url v base_dir') @
             (if snd (urldefrag u) = [] then [] else ''__'' @ slugify (snd (urldefrag u)))
         \<and> prefix (snd (path_for_url v base_dir')) (snd (path_for_url u base_dir))
         \<and> snd (urldefrag u) = drop 1 (dropWhile (\<lambda>c. c \<noteq> CHR ''#'') u)
         \<and> snd (path_for_url (fst (urldefrag u)) base_dir') = snd (path_for_url v base_dir')"
proof (cases "CHR ''#'' \<in> set u")
  case False
  then have vu: "v = u" using assms by (simp add: takeWhile_absent)
  have ud: "urldefrag u = (u, '''')" using False by (simp add: urldefrag_def)
  have dw: "dropWhile (\<lambda>c. c \<noteq> CHR ''#'') u = []" using False by (rule dropWhile_absent)
  show ?thesis by (simp add: path_for_url_def vu ud dw)
next
  case True
  define f where "f = drop 1 (dropWhile (\<lambda>c. c \<noteq> CHR ''#'') u)"
  have u: "u = v @ CHR ''#'' # f"
    using split_rejoin[OF True] assms by (simp add: f_def)
  have hv: "hashless v" using assms hashless_takeWhile_hash[of u] by simp
  have d: "urldefrag u = (urlunparse (urlparse v), f)"
    unfolding u using hv by (rule urldefrag_frag)
  have s: "stem_for_url u = stem_for_url v @ (if f = [] then [] else ''__'' @ slugify f)"
    unfolding u using hv by (rule stem_of_fragment(1))
  have s': "stem_for_url (urlunparse (urlparse v)) = stem_for_url v"
    using stem_of_fragment(2)[OF hv, of f] d by (simp add: u)
  have 1: "snd (path_for_url u base_dir) =
           snd (path_for_url v base_dir') @
             (if snd (urldefrag u) = [] then [] else ''__'' @ slugify (snd (urldefrag u)))"
    by (simp add: path_for_url_def d s)
  have 2: "prefix (snd (path_for_url v base_dir')) (snd (path_for_url u base_dir))"
    by (simp add: path_for_url_def s)
  have 3: "snd (urldefrag u) = drop 1 (dropWhile (\<lambda>c. c \<noteq> CHR ''#'') u)"
    by (simp only: d snd_conv f_def)
  have 4: "snd (path_for_url (fst (urldefrag u)) base_dir') = snd (path_for_url v base_dir')"
    by (simp add: path_for_url_def d s')
  from 1 2 3 4 show ?thesis by blast
qed

theorem stem_fragment_suffix_witness:
  "takeWhile (\<lambda>c. c \<noteq> CHR ''#'') ''http:////a#f'' = ''http:////a''
   \<and> snd (path_for_url ''http:////a#f'' ''out'') = ''a__f''
   \<and> snd (path_for_url ''http:////a'' ''pages'') = ''a''
   \<and> prefix (snd (path_for_url ''http:////a'' ''pages'')) (snd (path_for_url ''http:////a#f'' ''out''))
   \<and> urldefrag ''http:////a#f'' = (''http:////a'', ''f'')"
  using stem_fragment_suffix[of "''http:////a#f''" "''http:////a''" "''out''" "''pages''"]
  by code_simp

section \<open>One turn of the loop\<close>

lemma enqueue_links_events:
  "snd (enqueue_links cfg vis d ls) = map (\<lambda>(l, k). Enqueued l k) (fst (enqueue_links cfg vis d ls))"
  by (induction ls) (simp_all add: Let_def split_beta)

lemma enqueue_links_filter:
  "fst (enqueue_links cfg vis d ls) =
     map (\<lambda>l. (l, d))
       (filter (\<lambda>l. l \<notin> vis \<and> in_domain cfg l \<and> under_prefix l (path_prefix cfg))
          (map (\<lambda>l. fst (urldefrag l)) ls))"
  by (induction ls) (simp_all add: Let_def split_beta)

lemma enqueue_links_depth:
  "map snd (fst (enqueue_links cfg vis d ls)) = replicate (length (fst (enqueue_links cfg vis d ls))) d"
  unfolding enqueue_links_filter by (simp add: comp_def map_replicate_const)

lemma process_page_shape:
  "(\<exists>err. process_page e cfg s raw d u frag html final = s\<lparr>raised := Some err\<rparr>) \<or>
   (\<exists>fs r. process_page e cfg s raw d u frag html final =
       s\<lparr>q := q s @ fst (enqueue_links cfg (visited s) (Suc d)
                          (extract_links (urljoin e) final (bs_parse e html))),
         records := records s @ [r], processed := processed s + 1, files := files s @ fs,
         trace := trace s @ Persisted raw #
           snd (enqueue_links cfg (visited s) (Suc d)
                  (extract_links (urljoin e) final (bs_parse e html)))\<rparr>
     \<and> pr_url r = raw)"
proof -
  obtain new evs where en: "enqueue_links cfg (visited s) (Suc d)
                  (extract_links (urljoin e) final (bs_parse e html)) = (new, evs)"
    by (cases "enqueue_links cfg (visited s) (Suc d) (extract_links (urljoin e) final (bs_parse e html))")
  obtain title desc where td: "title_and_desc_from_html (bs_parse e html) = (title, desc)"
    by (cases "title_and_desc_from_html (bs_parse e html)")
  have ok: "\<exists>fs r. s\<lparr>files := files s @ [(fst (path_for_url raw (output_dir cfg)), ''# '' @ title @ ''> Source: '' @ raw @ md)],
                     records := records s @ [\<lparr>pr_url = raw, pr_filepath = fst (path_for_url raw (output_dir cfg)),
                                               pr_title = title, pr_description = desc\<rparr>],
                     processed := processed s + 1,
                     q := q s @ new,
                     trace := trace s @ Persisted raw # evs\<rparr> =
       s\<lparr>q := q s @ new,
         records := records s @ [r], processed := processed s + 1, files := files s @ fs,
         trace := trace s @ Persisted raw # evs\<rparr>
     \<and> pr_url r = raw" for md
    by (rule exI[of _ "[(fst (path_for_url raw (output_dir cfg)), ''# '' @ title @ ''> Source: '' @ raw @ md)]"],
        rule exI[of _ "\<lparr>pr_url = raw, pr_filepath = fst (path_for_url raw (output_dir cfg)),
                                               pr_title = title, pr_description = desc\<rparr>"]) simp
  show ?thesis
    unfolding process_page_def en td Let_def fst_conv snd_conv
    using ok by (auto split: sum.splits option.splits)
qed

lemma crawl_step_cases [consumes 2, case_names skip crash persist]:
  assumes qs: "q s = (entry, d) # rest" and u: "u = fst (urldefrag (strip entry))"
  obtains
    (skip) vis cache evs where
      "crawl_step e cfg s = s\<lparr>q := rest, visited := vis, robots_cache := cache,
                               trace := trace s @ Dequeued entry d # evs\<rparr>"
      "visited s \<subseteq> vis" "vis \<subseteq> insert u (visited s)" "list_all is_request evs"
      "fetched_urls evs = [] \<or> (fetched_urls evs = [u] \<and> u \<notin> visited s \<and> vis = insert u (visited s))"
  | (crash) cache evs err where
      "crawl_step e cfg s = s\<lparr>q := rest, visited := insert u (visited s), robots_cache := cache,
                               raised := Some err,
                               trace := trace s @ Dequeued entry d # evs @ [Fetched u]\<rparr>"
      "u \<notin> visited s" "list_all is_request evs" "fetched_urls evs = []"
  | (persist) cache evs fs r new where
      "crawl_step e cfg s = s\<lparr>q := rest @ new, visited := insert u (visited s),
                               records := records s @ [r], processed := processed s + 1,
                               robots_cache := cache, files := files s @ fs,
                               trace := trace s @ Dequeued entry d # evs @
                                 [Fetched u, Persisted (strip entry)] @
                                 map (\<lambda>(l, k). Enqueued l k) new\<rparr>"
      "u \<notin> visited s" "list_all is_request evs" "fetched_urls evs = []"
      "pr_url r = strip entry" "map snd new = replicate (length new) (Suc d)"
proof -
  from crawl_step_shape[OF qs, of e cfg, folded u]
  consider (a) vis cache evs where
      "crawl_step e cfg s = s\<lparr>q := rest, visited := vis, robots_cache := cache,
                               trace := trace s @ Dequeued entry d # evs\<rparr>"
      "visited s \<subseteq> vis" "vis \<subseteq> insert u (visited s)" "list_all is_request evs"
      "fetched_urls evs = [] \<or> (fetched_urls evs = [u] \<and> u \<notin> visited s \<and> vis = insert u (visited s))"
    | (b) cache evs html final where
      "crawl_step e cfg s =
              process_page e cfg
                (s\<lparr>q := rest, visited := insert u (visited s), robots_cache := cache,
                   trace := trace s @ Dequeued entry d # evs @ [Fetched u]\<rparr>)
                (strip entry) d u (snd (urldefrag (strip entry))) html final"
      "u \<notin> visited s" "list_all is_request evs" "fetched_urls evs = []"
    by blast
  then show thesis
  proof cases
    case a
    then show ?thesis by (rule skip)
  next
    case b
    define s4 where "s4 = s\<lparr>q := rest, visited := insert u (visited s), robots_cache := cache,
                   trace := trace s @ Dequeued entry d # evs @ [Fetched u]\<rparr>"
    define links where "links = extract_links (urljoin e) final (bs_parse e html)"
    define new where "new = fst (enqueue_links cfg (visited s4) (Suc d) links)"
    from process_page_shape[of e cfg s4 "strip entry" d u "snd (urldefrag (strip entry))" html final]
    consider (c) err where "crawl_step e cfg s = s4\<lparr>raised := Some err\<rparr>"
      | (p) fs r where "crawl_step e cfg s =
          s4\<lparr>q := q s4 @ new, records := records s4 @ [r], processed := processed s4 + 1,
             files := files s4 @ fs,
             trace := trace s4 @ Persisted (strip entry) # map (\<lambda>(l, k). Enqueued l k) new\<rparr>"
          "pr_url r = strip entry"
      unfolding b(1) s4_def[symmetric] links_def[symmetric] enqueue_links_events new_def[symmetric]
      by blast
    then show ?thesis
    proof cases
      case c
      show ?thesis
        by (rule crash[where cache=cache and err=err and evs=evs]) (use c b in \<open>simp_all add: s4_def\<close>)
    next
      case p
      have dep: "map snd new = replicate (length new) (Suc d)"
        unfolding new_def by (rule enqueue_links_depth)
      show ?thesis
        by (rule persist[where new=new and r=r and cache=cache and fs=fs and evs=evs]) (use p b dep in \<open>simp_all add: s4_def\<close>)
    qed
  qed
qed

lemma crawl_loop_invariant:
  assumes "I s" and "\<And>s. I s \<Longrightarrow> running cfg s \<Longrightarrow> I (crawl_step e cfg s)"
  shows "I (crawl_loop e cfg s) \<and> \<not> running cfg (crawl_loop e cfg s)"
  using assms
proof (induction e cfg s rule: crawl_loop.induct)
  case (1 e cfg s)
  show ?case
  proof (cases "running cfg s")
    case True
    then have "I (crawl_step e cfg s)" using "1.prems" by blast
    then have "I (crawl_loop e cfg (crawl_step e cfg s)) \<and>
               \<not> running cfg (crawl_loop e cfg (crawl_step e cfg s))"
      using "1.IH"[OF True] "1.prems"(2) by blast
    then show ?thesis using True by (subst (1 2) crawl_loop.simps) simp
  next
    case False
    then show ?thesis using "1.prems"(1) by (subst (1 2) crawl_loop.simps) simp
  qed
qed

section \<open>The page limit\<close>

lemma enqueued_not_persisted: "is_enqueued ev \<Longrightarrow> \<not> is_persisted ev"
  by (cases ev) simp_all

lemma after_last_persist_tail:
  assumes "list_all is_enqueued evs"
  shows "after_last_persist (xs @ Persisted r # evs) = evs"
proof -
  have np: "\<forall>ev\<in>set (rev evs). \<not> is_persisted ev"
    using assms by (auto simp: list_all_iff dest: enqueued_not_persisted)
  have "takeWhile (\<lambda>ev. \<not> is_persisted ev) (rev evs @ Persisted r # rev xs) =
        takeWhile (\<lambda>ev. \<not> is_persisted ev) (rev evs)"
    by (rule takeWhile_tail) simp
  also have "\<dots> = rev evs" using np by (simp add: takeWhile_eq_all_conv)
  finally show ?thesis by (simp add: after_last_persist_def)
qed

lemma enqueued_events_all: "list_all is_enqueued (map (\<lambda>(l, k). Enqueued l k) new)"
  by (induction new) auto

lemma page_limit_step:
  assumes run: "running cfg s"
    and inv: "int (length (records s)) = processed s \<and> processed s \<le> max_pages cfg \<and>
              (processed s = max_pages cfg \<longrightarrow> list_all is_enqueued (after_last_persist (trace s)))"
  shows "int (length (records (crawl_step e cfg s))) = processed (crawl_step e cfg s) \<and>
         processed (crawl_step e cfg s) \<le> max_pages cfg \<and>
         (processed (crawl_step e cfg s) = max_pages cfg \<longrightarrow>
            list_all is_enqueued (after_last_persist (trace (crawl_step e cfg s))))"
proof -
  from run obtain entry d rest where qs: "q s = (entry, d) # rest"
    by (cases "q s") (auto simp: running_def)
  from run have lt: "processed s < max_pages cfg" by (simp add: running_def)
  from qs refl[of "fst (urldefrag (strip entry))"] show ?thesis
  proof (cases rule: crawl_step_cases[where e=e and cfg=cfg])
    case (skip vis cache evs)
    then show ?thesis using inv lt by simp
  next
    case (crash cache evs err)
    then show ?thesis using inv lt by simp
  next
    case (persist cache evs fs r new)
    have "trace (crawl_step e cfg s) =
          (trace s @ Dequeued entry d # evs @ [Fetched (fst (urldefrag (strip entry)))]) @
            Persisted (strip entry) # map (\<lambda>(l, k). Enqueued l k) new"
      by (simp add: persist(1))
    then have "after_last_persist (trace (crawl_step e cfg s)) = map (\<lambda>(l, k). Enqueued l k) new"
      by (simp only: after_last_persist_tail[OF enqueued_events_all])
    then show ?thesis using inv lt enqueued_events_all[of new] by (simp add: persist(1))
  qed
qed

text \<open>
  Claim C1. A crawl with \<open>max_pages = N\<close>, \<open>N \<ge> 1\<close>, ends (the loop is a total function),
  and when it ends: at most \<open>N\<close> page records exist, as many as pages were counted; the
  frontier is empty, or the count is exactly \<open>N\<close>, or the renderer raised; and when the
  count is \<open>N\<close>, nothing but the links of the last persisted page joining the frontier
  happened after that page was persisted: no request was made, whatever remains in the
  frontier. \<open>acrawl\<close> returns these records.
\<close>

theorem page_limit:
  assumes "1 \<le> max_pages cfg"
  shows "int (length (records (crawl_loop e cfg (initial_state cfg)))) \<le> max_pages cfg
    \<and> int (length (records (crawl_loop e cfg (initial_state cfg))))
        = processed (crawl_loop e cfg (initial_state cfg))
    \<and> (q (crawl_loop e cfg (initial_state cfg)) = []
        \<or> processed (crawl_loop e cfg (initial_state cfg)) = max_pages cfg
        \<or> raised (crawl_loop e cfg (initial_state cfg)) \<noteq> None)
    \<and> (processed (crawl_loop e cfg (initial_state cfg)) = max_pages cfg \<longrightarrow>
         list_all is_enqueued (after_last_persist (trace (crawl_loop e cfg (initial_state cfg)))))
    \<and> (case acrawl e cfg of Inl err \<Rightarrow> True | Inr rs \<Rightarrow> int (length rs) \<le> max_pages cfg)"
proof -
  define I where "I = (\<lambda>s::crawl_state. int (length (records s)) = processed s \<and> processed s \<le> max_pages cfg \<and>
              (processed s = max_pages cfg \<longrightarrow> list_all is_enqueued (after_last_persist (trace s))))"
  define final where "final = crawl_loop e cfg (initial_state cfg)"
  have init: "I (initial_state cfg)" using assms by (simp add: I_def initial_state_def)
  have step: "\<And>s. I s \<Longrightarrow> running cfg s \<Longrightarrow> I (crawl_step e cfg s)"
    unfolding I_def by (rule page_limit_step)
  from crawl_loop_invariant[of I, OF init step]
  have fin: "I final" and stop: "\<not> running cfg final" by (simp_all add: final_def)
  from fin have a: "int (length (records final)) = processed final" "processed final \<le> max_pages cfg"
    "processed final = max_pages cfg \<longrightarrow> list_all is_enqueued (after_last_persist (trace final))"
    by (simp_all add: I_def)
  from stop a(2) have b: "q final = [] \<or> processed final = max_pages cfg \<or> raised final \<noteq> None"
    by (auto simp: running_def)
  have c: "(case acrawl e cfg of Inl err \<Rightarrow> True | Inr rs \<Rightarrow> int (length rs) \<le> max_pages cfg)"
    using a by (simp add: acrawl_def final_def[symmetric] Let_def split: option.splits)
  show ?thesis using a b c unfolding final_def by simp
qed

theorem page_limit_witness:
  "1 \<le> max_pages one_page_cfg
   \<and> int (length (records (crawl_loop example_env one_page_cfg (initial_state one_page_cfg)))) \<le> 1
   \<and> processed (crawl_loop example_env one_page_cfg (initial_state one_page_cfg)) = max_pages one_page_cfg
   \<and> q (crawl_loop example_env one_page_cfg (initial_state one_page_cfg))
       = [(''https://docs.example/api/intro'', 1)]
   \<and> fetched_urls (trace (crawl_loop example_env one_page_cfg (initial_state one_page_cfg)))
       = [''https://docs.example/api'']
   \<and> list_all is_enqueued
        (after_last_persist (trace (crawl_loop example_env one_page_cfg (initial_state one_page_cfg))))"
proof -
  have h: "1 \<le> max_pages one_page_cfg" by (simp add: one_page_cfg_def)
  have m: "max_pages one_page_cfg = 1" by (simp add: one_page_cfg_def)
  have p: "processed (crawl_loop example_env one_page_cfg (initial_state one_page_cfg)) = 1"
    by code_simp
  have f: "q (crawl_loop example_env one_page_cfg (initial_state one_page_cfg))
       = [(''https://docs.example/api/intro'', 1)]"
    by code_simp
  have t: "fetched_urls (trace (crawl_loop example_env one_page_cfg (initial_state one_page_cfg)))
       = [''https://docs.example/api'']"
    by code_simp
  from page_limit[OF h, of example_env] h p f t show ?thesis by (simp add: m)
qed

section \<open>Discarded URLs\<close>

lemma fetch_failure_none: "fetch_failure get u \<Longrightarrow> fetch_html get u = (None, None)"
  by (auto simp: fetch_failure_def fetch_html_def html_type_def Let_def split: sum.splits)

text \<open>
  Claim C7. In a turn of the loop on a URL that the scope rejects (domain, prefix or
  robots) or whose fetch fails (the request raises, a status other than 200, a content type
  that is not HTML), the entry leaves the frontier and nothing else of the result changes:
  no record, no file, the count of processed pages as before, no exception; and the crawl
  goes on from there.
\<close>

theorem discard_continues:
  assumes "running cfg s" and "q s = (entry, d) # rest"
    and "scope_rejected e cfg s (fst (urldefrag (strip entry)))
         \<or> fetch_failure (http_get e) (fst (urldefrag (strip entry)))"
  shows "processed (crawl_step e cfg s) = processed s
    \<and> records (crawl_step e cfg s) = records s
    \<and> files (crawl_step e cfg s) = files s
    \<and> q (crawl_step e cfg s) = rest
    \<and> raised (crawl_step e cfg s) = None
    \<and> crawl_loop e cfg s = crawl_loop e cfg (crawl_step e cfg s)"
proof -
  obtain u frag where uf: "urldefrag (strip entry) = (u, frag)" by (cases "urldefrag (strip entry)")
  obtain ok cache evs where al: "allowed e cfg (robots_cache s) u = (ok, cache, evs)"
    by (cases "allowed e cfg (robots_cache s) u")
  from assms(1) have r: "raised s = None" by (simp add: running_def)
  from assms(3) have "\<not> in_domain cfg u \<or> \<not> under_prefix u (path_prefix cfg) \<or> \<not> ok
      \<or> fetch_html (http_get e) u = (None, None)"
    using fetch_failure_none[of "http_get e" u] by (auto simp: scope_rejected_def uf al)
  then have "processed (crawl_step e cfg s) = processed s
    \<and> records (crawl_step e cfg s) = records s
    \<and> files (crawl_step e cfg s) = files s
    \<and> q (crawl_step e cfg s) = rest
    \<and> raised (crawl_step e cfg s) = None"
    using r by (auto simp: crawl_step_def assms(2) uf al Let_def)
  moreover have "crawl_loop e cfg s = crawl_loop e cfg (crawl_step e cfg s)"
    using assms(1) by (subst crawl_loop.simps) simp
  ultimately show ?thesis by simp
qed

theorem discard_continues_witness:
  "running missing_cfg (initial_state missing_cfg)
   \<and> q (initial_state missing_cfg) = (''https://docs.example/api/missing'', 0) # []
   \<and> fetch_failure (http_get example_env) (fst (urldefrag (strip ''https://docs.example/api/missing'')))
   \<and> processed (crawl_step example_env missing_cfg (initial_state missing_cfg)) = 0
   \<and> records (crawl_step example_env missing_cfg (initial_state missing_cfg)) = []
   \<and> q (crawl_step example_env missing_cfg (initial_state missing_cfg)) = []
   \<and> raised (crawl_step example_env missing_cfg (initial_state missing_cfg)) = None
   \<and> crawl_loop example_env missing_cfg (initial_state missing_cfg)
      = crawl_loop example_env missing_cfg (crawl_step example_env missing_cfg (initial_state missing_cfg))"
proof -
  have a: "running missing_cfg (initial_state missing_cfg)" by code_simp
  have b: "q (initial_state missing_cfg) = (''https://docs.example/api/missing'', 0) # []"
    by code_simp
  have c: "fetch_failure (http_get example_env) (fst (urldefrag (strip ''https://docs.example/api/missing'')))"
    by code_simp
  have i: "processed (initial_state missing_cfg) = 0" "records (initial_state missing_cfg) = []"
    by (simp_all add: initial_state_def)
  from discard_continues[OF a b disjI2, OF c] a b c i show ?thesis by simp
qed

section \<open>Fragments and the visited set\<close>

lemma dequeued_append: "dequeued (xs @ ys) = dequeued xs @ dequeued ys"
  by (induction xs rule: dequeued.induct) simp_all

lemma enqueued_append: "enqueued (xs @ ys) = enqueued xs @ enqueued ys"
  by (induction xs rule: enqueued.induct) simp_all

lemma request_events:
  "list_all is_request evs \<Longrightarrow> dequeued evs = [] \<and> enqueued evs = []"
proof (induction evs)
  case Nil
  then show ?case by simp
next
  case (Cons ev evs)
  then show ?case by (cases ev) simp_all
qed

lemma enqueue_events:
  "dequeued (map (\<lambda>(l, k). Enqueued l k) new) = []"
  "enqueued (map (\<lambda>(l, k). Enqueued l k) new) = new"
  "fetched_urls (map (\<lambda>(l, k). Enqueued l k) new) = []"
  by (induction new) auto




section \<open>Breadth-first order\<close>

lemma deeper_than_append:
  "deeper_than k (xs @ ys) = (deeper_than k xs \<and> deeper_than k ys)"
  by (simp add: deeper_than_def enqueued_append)

lemma no_dequeue_breadth_first: "dequeued evs = [] \<Longrightarrow> breadth_first evs"
  by (induction evs rule: breadth_first.induct) simp_all

lemma breadth_first_append:
  "breadth_first (xs @ ys) =
     (breadth_first xs \<and> breadth_first ys \<and> list_all (\<lambda>(u, k). deeper_than k ys) (dequeued xs))"
  by (induction xs rule: breadth_first.induct) (auto simp: deeper_than_append)

lemma breadth_first_split:
  assumes "breadth_first tr" and "tr = pre @ Dequeued u k # post" and "(v, d) \<in> set (enqueued post)"
  shows "k < d"
proof -
  from assms(1,2) have "breadth_first (Dequeued u k # post)"
    by (simp add: breadth_first_append)
  then have "deeper_than k post" by simp
  with assms(3) show ?thesis by (auto simp: deeper_than_def list_all_iff)
qed

lemma sorted_append_const:
  assumes "sorted (map snd xs)" and "\<forall>x\<in>set xs. snd x \<le> c" and "\<forall>y\<in>set ys. snd y = c"
  shows "sorted (map snd (xs @ ys))"
proof -
  have "sorted (map snd ys)" using assms(3) by (induction ys) auto
  then show ?thesis using assms by (auto simp: sorted_append)
qed

lemma bfs_step:
  assumes run: "running cfg s"
    and inv: "dequeued (trace s) @ q s = map (\<lambda>x. (x, 0)) (seeds cfg) @ enqueued (trace s)
      \<and> sorted (map snd (dequeued (trace s) @ q s))
      \<and> (\<forall>x\<in>set (q s). \<forall>y\<in>set (q s). snd x \<le> Suc (snd y))
      \<and> breadth_first (trace s)"
  shows "dequeued (trace (crawl_step e cfg s)) @ q (crawl_step e cfg s)
           = map (\<lambda>x. (x, 0)) (seeds cfg) @ enqueued (trace (crawl_step e cfg s))
         \<and> sorted (map snd (dequeued (trace (crawl_step e cfg s)) @ q (crawl_step e cfg s)))
         \<and> (\<forall>x\<in>set (q (crawl_step e cfg s)). \<forall>y\<in>set (q (crawl_step e cfg s)). snd x \<le> Suc (snd y))
         \<and> breadth_first (trace (crawl_step e cfg s))"
proof -
  from inv have fifo: "dequeued (trace s) @ q s = map (\<lambda>x. (x, 0)) (seeds cfg) @ enqueued (trace s)"
    and srt: "sorted (map snd (dequeued (trace s) @ q s))"
    and spread: "\<forall>x\<in>set (q s). \<forall>y\<in>set (q s). snd x \<le> Suc (snd y)"
    and bf: "breadth_first (trace s)"
    by blast+
  from run obtain entry d rest where qs: "q s = (entry, d) # rest"
    by (cases "q s") (auto simp: running_def)
  have deq_le: "\<forall>x\<in>set (dequeued (trace s)). snd x \<le> d"
    using srt by (auto simp: qs sorted_append)
  have rest_ge: "\<forall>x\<in>set rest. d \<le> snd x"
    using srt by (auto simp: qs sorted_append)
  have rest_le: "\<forall>x\<in>set rest. snd x \<le> Suc d"
    using spread by (auto simp: qs)
  have deq_deeper: "list_all (\<lambda>(u, k). k < Suc d) (dequeued (trace s))"
    using deq_le by (auto simp: list_all_iff)
  text \<open>A turn that enqueues nothing.\<close>
  have quiet: "?thesis"
    if st: "q (crawl_step e cfg s) = rest"
       "trace (crawl_step e cfg s) = trace s @ Dequeued entry d # evs"
       "dequeued evs = []" "enqueued evs = []" for evs
  proof -
    have a: "dequeued (trace (crawl_step e cfg s)) @ q (crawl_step e cfg s) = dequeued (trace s) @ q s"
      by (simp add: st dequeued_append qs)
    have b: "enqueued (trace (crawl_step e cfg s)) = enqueued (trace s)"
      by (simp add: st enqueued_append)
    have c: "breadth_first (trace (crawl_step e cfg s))"
      using bf st(3,4)
      by (simp add: st(2) breadth_first_append no_dequeue_breadth_first deeper_than_def list_all_iff
            split_beta)
    have d: "\<forall>x\<in>set rest. \<forall>y\<in>set rest. snd x \<le> Suc (snd y)"
      using spread by (simp add: qs)
    have g1: "dequeued (trace (crawl_step e cfg s)) @ q (crawl_step e cfg s)
            = map (\<lambda>x. (x, 0)) (seeds cfg) @ enqueued (trace (crawl_step e cfg s))"
      unfolding a b by (rule fifo)
    have g2: "sorted (map snd (dequeued (trace (crawl_step e cfg s)) @ q (crawl_step e cfg s)))"
      unfolding a by (rule srt)
    have g3: "\<forall>x\<in>set (q (crawl_step e cfg s)). \<forall>y\<in>set (q (crawl_step e cfg s)). snd x \<le> Suc (snd y)"
      unfolding st(1) by (rule d)
    from g1 g2 g3 c show ?thesis by blast
  qed
  from qs refl[of "fst (urldefrag (strip entry))"] show ?thesis
  proof (cases rule: crawl_step_cases[where e=e and cfg=cfg])
    case (skip vis cache evs)
    show ?thesis
      by (rule quiet[of evs]) (use skip request_events[of evs] in simp_all)
  next
    case (crash cache evs err)
    show ?thesis
      by (rule quiet[of "evs @ [Fetched (fst (urldefrag (strip entry)))]"])
         (use crash request_events[of evs] in \<open>simp_all add: dequeued_append enqueued_append\<close>)
  next
    case (persist cache evs fs r new)
    define tail where "tail = evs @ [Fetched (fst (urldefrag (strip entry))), Persisted (strip entry)] @
                                 map (\<lambda>(l, k). Enqueued l k) new"
    have tr: "trace (crawl_step e cfg s) = trace s @ Dequeued entry d # tail"
      and q': "q (crawl_step e cfg s) = rest @ new"
      by (simp_all add: persist(1) tail_def)
    have td: "dequeued tail = []" and te: "enqueued tail = new"
      using request_events[OF persist(3)]
      by (simp_all add: tail_def dequeued_append enqueued_append enqueue_events)
    have nd: "\<forall>y\<in>set new. snd y = Suc d"
    proof
      fix y assume "y \<in> set new"
      then have "snd y \<in> set (map snd new)" by simp
      then show "snd y = Suc d" by (simp only: persist(6)) simp
    qed
    have a: "dequeued (trace (crawl_step e cfg s)) @ q (crawl_step e cfg s)
             = (dequeued (trace s) @ q s) @ new"
      by (simp add: tr q' dequeued_append td qs)
    have b: "enqueued (trace (crawl_step e cfg s)) = enqueued (trace s) @ new"
      by (simp add: tr enqueued_append te)
    have all_le: "\<forall>x\<in>set (dequeued (trace s) @ q s). snd x \<le> Suc d"
      using deq_le rest_le by (auto simp: qs)
    have c: "sorted (map snd ((dequeued (trace s) @ q s) @ new))"
      by (rule sorted_append_const[OF srt all_le nd])
    have dt: "deeper_than k tail = list_all (\<lambda>(v, d). k < d) new" for k
      by (simp add: deeper_than_def te)
    have new_deep: "list_all (\<lambda>(v, d'). k < d') new" if "k < Suc d" for k
      using nd that by (auto simp: list_all_iff)
    have e1: "breadth_first (Dequeued entry d # tail)"
      using new_deep[of d] by (simp add: dt no_dequeue_breadth_first[OF td])
    have e2: "list_all (\<lambda>(u, k). deeper_than k (Dequeued entry d # tail)) (dequeued (trace s))"
    proof -
      have "deeper_than (snd x) (Dequeued entry d # tail)" if "x \<in> set (dequeued (trace s))" for x
      proof -
        from that deq_le have "snd x < Suc d" by auto
        from new_deep[OF this] show ?thesis by (simp add: deeper_than_def te)
      qed
      then show ?thesis by (auto simp: list_all_iff)
    qed
    have e: "breadth_first (trace (crawl_step e cfg s))"
      unfolding tr breadth_first_append using bf e1 e2 by simp
    have bnd: "\<forall>x\<in>set (rest @ new). d \<le> snd x \<and> snd x \<le> Suc d"
      using rest_ge rest_le nd by auto
    have f: "\<forall>x\<in>set (rest @ new). \<forall>y\<in>set (rest @ new). snd x \<le> Suc (snd y)"
    proof (intro ballI)
      fix x y assume "x \<in> set (rest @ new)" "y \<in> set (rest @ new)"
      with bnd have "snd x \<le> Suc d" "d \<le> snd y" by blast+
      then show "snd x \<le> Suc (snd y)" by arith
    qed
    have g1: "dequeued (trace (crawl_step e cfg s)) @ q (crawl_step e cfg s)
            = map (\<lambda>x. (x, 0)) (seeds cfg) @ enqueued (trace (crawl_step e cfg s))"
      unfolding a b by (simp only: fifo append_assoc)
    have g2: "sorted (map snd (dequeued (trace (crawl_step e cfg s)) @ q (crawl_step e cfg s)))"
      unfolding a by (rule c)
    have g3: "\<forall>x\<in>set (q (crawl_step e cfg s)). \<forall>y\<in>set (q (crawl_step e cfg s)). snd x \<le> Suc (snd y)"
      unfolding q' by (rule f)
    from g1 g2 g3 e show ?thesis by blast
  qed
qed

text \<open>
  Claim C3. The traversal is breadth-first. Over a whole crawl: the frontier is a queue
  (the entries that left it, followed by those still in it, are the seeds followed by the
  links in the order they joined); entries leave in order of depth; and once an entry of
  depth \<open>k\<close> has left, every link that joins later is deeper than \<open>k\<close>, so that all links
  of depth \<open>d\<close> have joined before the first link of depth \<open>d + 1\<close> leaves.
\<close>

theorem breadth_first_order:
  "dequeued (trace (crawl_loop e cfg (initial_state cfg))) @ q (crawl_loop e cfg (initial_state cfg))
     = map (\<lambda>x. (x, 0)) (seeds cfg) @ enqueued (trace (crawl_loop e cfg (initial_state cfg)))
   \<and> sorted (map snd (dequeued (trace (crawl_loop e cfg (initial_state cfg)))))
   \<and> (\<forall>pre u k post v d.
         trace (crawl_loop e cfg (initial_state cfg)) = pre @ Dequeued u k # post
         \<longrightarrow> (v, d) \<in> set (enqueued post) \<longrightarrow> k < d)"
proof -
  define I where "I = (\<lambda>s::crawl_state.
      dequeued (trace s) @ q s = map (\<lambda>x. (x, 0)) (seeds cfg) @ enqueued (trace s)
      \<and> sorted (map snd (dequeued (trace s) @ q s))
      \<and> (\<forall>x\<in>set (q s). \<forall>y\<in>set (q s). snd x \<le> Suc (snd y))
      \<and> breadth_first (trace s))"
  have "sorted (map snd (map (\<lambda>x. (x, 0::nat)) xs))" for xs :: "string list"
    by (induction xs) auto
  then have init: "I (initial_state cfg)" by (simp add: I_def initial_state_def)
  have step: "\<And>s. I s \<Longrightarrow> running cfg s \<Longrightarrow> I (crawl_step e cfg s)"
    unfolding I_def by (rule bfs_step)
  from crawl_loop_invariant[of I, OF init step]
  have fin: "I (crawl_loop e cfg (initial_state cfg))" by simp
  then have "sorted (map snd (dequeued (trace (crawl_loop e cfg (initial_state cfg)))))"
    by (simp add: I_def sorted_append)
  moreover have "\<forall>pre u k post v d.
         trace (crawl_loop e cfg (initial_state cfg)) = pre @ Dequeued u k # post
         \<longrightarrow> (v, d) \<in> set (enqueued post) \<longrightarrow> k < d"
    using fin breadth_first_split unfolding I_def by blast
  ultimately show ?thesis using fin by (simp add: I_def)
qed

theorem breadth_first_order_witness:
  "trace (crawl_loop example_env example_cfg (initial_state example_cfg))
     = [] @ Dequeued ''https://docs.example/api'' 0 #
         [RobotsRequested ''https://docs.example/robots.txt'',
          Fetched ''https://docs.example/api'',
          Persisted ''https://docs.example/api'',
          Enqueued ''https://docs.example/api/intro'' 1,
          Dequeued ''https://docs.example/api/intro'' 1,
          Fetched ''https://docs.example/api/intro'',
          Persisted ''https://docs.example/api/intro'']
   \<and> (''https://docs.example/api/intro'', 1)
       \<in> set (enqueued
         [RobotsRequested ''https://docs.example/robots.txt'',
          Fetched ''https://docs.example/api'',
          Persisted ''https://docs.example/api'',
          Enqueued ''https://docs.example/api/intro'' 1,
          Dequeued ''https://docs.example/api/intro'' 1,
          Fetched ''https://docs.example/api/intro'',
          Persisted ''https://docs.example/api/intro''])
   \<and> (0::nat) < 1
   \<and> dequeued (trace (crawl_loop example_env example_cfg (initial_state example_cfg)))
         @ q (crawl_loop example_env example_cfg (initial_state example_cfg))
       = map (\<lambda>x. (x, 0)) (seeds example_cfg)
         @ enqueued (trace (crawl_loop example_env example_cfg (initial_state example_cfg)))
   \<and> sorted (map snd (dequeued (trace (crawl_loop example_env example_cfg (initial_state example_cfg)))))"
proof -
  have t: "trace (crawl_loop example_env example_cfg (initial_state example_cfg))
     = [] @ Dequeued ''https://docs.example/api'' 0 #
         [RobotsRequested ''https://docs.example/robots.txt'',
          Fetched ''https://docs.example/api'',
          Persisted ''https://docs.example/api'',
          Enqueued ''https://docs.example/api/intro'' 1,
          Dequeued ''https://docs.example/api/intro'' 1,
          Fetched ''https://docs.example/api/intro'',
          Persisted ''https://docs.example/api/intro'']"
    by code_simp
  have m: "(''https://docs.example/api/intro'', 1)
       \<in> set (enqueued
         [RobotsRequested ''https://docs.example/robots.txt'',
          Fetched ''https://docs.example/api'',
          Persisted ''https://docs.example/api'',
          Enqueued ''https://docs.example/api/intro'' 1,
          Dequeued ''https://docs.example/api/intro'' 1,
          Fetched ''https://docs.example/api/intro'',
          Persisted ''https://docs.example/api/intro''])"
    by simp
  from breadth_first_order[of example_env example_cfg] t m show ?thesis by blast
qed

section \<open>Page metadata\<close>

lemma split_from_space:
  "isspace w \<Longrightarrow> split_from cur (a @ w # b) = split_from cur a @ split_ws b"
  by (induction a arbitrary: cur) (simp_all add: split_ws_def)

lemma split_ws_leading: "list_all isspace pre \<Longrightarrow> split_ws (pre @ s) = split_ws s"
  by (induction pre) (simp_all add: split_ws_def)

lemma split_from_trailing: "list_all isspace suf \<Longrightarrow> split_from cur (s @ suf) = split_from cur s"
proof (induction suf arbitrary: s)
  case Nil
  then show ?case by simp
next
  case (Cons w suf)
  then have w: "isspace w" and rest: "list_all isspace suf" by simp_all
  have "split_from cur (s @ w # suf) = split_from cur s @ split_ws suf"
    by (rule split_from_space[OF w])
  also have "split_ws suf = []"
    using split_ws_leading[OF rest, of "[]"] by (simp add: split_ws_def)
  finally show ?case by simp
qed

lemma split_ws_strip: "split_ws (strip s) = split_ws s"
proof -
  define pre where "pre = takeWhile isspace s"
  define suf where "suf = rev (takeWhile isspace (rev (dropWhile isspace s)))"
  have dec: "s = pre @ strip s @ suf"
    unfolding pre_def suf_def strip_def by (rule strip_chars_decompose)
  have p: "list_all isspace pre" unfolding pre_def by (auto simp: list_all_iff dest: set_takeWhileD)
  have q: "list_all isspace suf" unfolding suf_def by (auto simp: list_all_iff dest: set_takeWhileD)
  have "split_ws s = split_ws (pre @ strip s @ suf)" by (subst dec) simp
  also have "\<dots> = split_ws (strip s @ suf)" by (rule split_ws_leading[OF p])
  also have "\<dots> = split_ws (strip s)" unfolding split_ws_def by (rule split_from_trailing[OF q])
  finally show ?thesis by simp
qed

lemma split_ws_join: "split_ws (join '' '' ss) = concat (map split_ws ss)"
proof (induction ss)
  case Nil
  then show ?case by (simp add: split_ws_def)
next
  case (Cons x xs)
  show ?case
  proof (cases xs)
    case Nil
    then show ?thesis by simp
  next
    case (Cons y ys)
    have sp: "isspace CHR '' ''" by (simp add: isspace_def ord_def)
    have "split_ws (x @ CHR '' '' # join '' '' (y # ys)) = split_ws x @ split_ws (join '' '' (y # ys))"
      unfolding split_ws_def[of "x @ _"] split_ws_def[of x] by (rule split_from_space[OF sp])
    then show ?thesis using Cons.IH Cons by simp
  qed
qed

lemma concat_split_nonempty:
  "concat (map split_ws (filter (\<lambda>s. s \<noteq> []) ss)) = concat (map split_ws ss)"
  by (induction ss) (simp_all add: split_ws_def)

lemma get_text_words: "split_ws (get_text_stripped p) = split_ws (paragraph_text p)"
proof -
  have "split_ws (get_text_stripped p) = concat (map split_ws (map strip (text_strings p)))"
    by (simp only: get_text_stripped_def split_ws_join concat_split_nonempty)
  also have "\<dots> = concat (map split_ws (text_strings p))"
    by (simp add: comp_def split_ws_strip)
  finally show ?thesis by (simp add: paragraph_text_def split_ws_join)
qed

text \<open>
  Claim C10. \<open>title_and_desc_from_html\<close> gives the title \<open>Untitled\<close> when the document has
  no \<open>title\<close> element and when its \<open>title\<close> element is empty (it holds nothing, or
  the empty string). The description is empty when
  the document has no \<open>p\<close> element; otherwise it is the first 280 characters of the first
  paragraph's text with its whitespace collapsed.
\<close>

theorem title_and_desc:
  "(find_first (named ''title'') soup = None \<longrightarrow> fst (title_and_desc_from_html soup) = ''Untitled'')
   \<and> (\<forall>a. find_first (named ''title'') soup = Some (Tag ''title'' a [])
          \<longrightarrow> fst (title_and_desc_from_html soup) = ''Untitled'')
   \<and> (\<forall>a. find_first (named ''title'') soup = Some (Tag ''title'' a [NavigableString ''''])
          \<longrightarrow> fst (title_and_desc_from_html soup) = ''Untitled'')
   \<and> snd (title_and_desc_from_html soup) =
       (case find_first (named ''p'') soup of
          None \<Rightarrow> ''''
        | Some p \<Rightarrow> take 280 (collapse_whitespace (paragraph_text p)))
   \<and> length (snd (title_and_desc_from_html soup)) \<le> 280"
  by (auto simp: title_and_desc_from_html_def Let_def collapse_whitespace_def get_text_words
           split: option.splits)

theorem title_and_desc_witness:
  "find_first (named ''title'') empty_document = None
   \<and> fst (title_and_desc_from_html empty_document) = ''Untitled''
   \<and> snd (title_and_desc_from_html empty_document) = ''''
   \<and> find_first (named ''title'') small_document = Some (Tag ''title'' [] [])
   \<and> fst (title_and_desc_from_html small_document) = ''Untitled''
   \<and> snd (title_and_desc_from_html small_document) = ''hello bold wide world''"
proof -
  have a: "find_first (named ''title'') empty_document = None" by code_simp
  have b: "find_first (named ''title'') small_document = Some (Tag ''title'' [] [])" by code_simp
  have c: "snd (title_and_desc_from_html empty_document) = ''''" by code_simp
  have d: "snd (title_and_desc_from_html small_document) = ''hello bold wide world''" by code_simp
  from title_and_desc[of empty_document] title_and_desc[of small_document] a b c d
  show ?thesis by blast
qed

section \<open>Fragment sections\<close>

lemma collect_siblings_takeWhile:
  "collect_siblings level sibs =
     takeWhile (\<lambda>n. \<not> (is_tag n \<and> is_heading n \<and> heading_rank n \<le> level)) sibs"
  by (induction sibs) simp_all

lemma heading_rank_le_2:
  "(is_tag n \<and> is_heading n \<and> heading_rank n \<le> 2) = (tag_name n = Some ''h1'' \<or> tag_name n = Some ''h2'')"
  by (cases n) (auto simp: is_heading_def heading_tags_def heading_rank_def ord_def)

lemma heading_rank_le_6: "(is_tag n \<and> is_heading n \<and> heading_rank n \<le> 6) = is_heading n"
  by (cases n) (auto simp: is_heading_def heading_tags_def heading_rank_def ord_def)

lemma section_level_h2: "tag_name n = Some ''h2'' \<Longrightarrow> section_level n = Inr 2"
  by (simp add: section_level_def startswith_def isdigit_def int_of_digit_def ord_def)

text \<open>
  A section that starts at an \<open>h2\<close>: the heading and its following siblings up to, and
  without, the first sibling \<open>h1\<close> or \<open>h2\<close>; the siblings \<open>h3\<close> to \<open>h6\<close> before it are
  kept.
\<close>

lemma h2_section:
  assumes "fragment \<noteq> []" and "locate soup fragment = Some node"
    and "enclosing_heading node = Some start" and "tag_name (place_node start) = Some ''h2''"
  shows "slice_fragment_section soup fragment =
     Inr (Some (Tag ''div'' []
       (map as_child
          (place_node start #
             takeWhile (\<lambda>n. tag_name n \<noteq> Some ''h1'' \<and> tag_name n \<noteq> Some ''h2'')
               (next_siblings start)))))"
  using assms
  by (simp add: slice_fragment_section_def section_level_h2 collect_siblings_takeWhile
        heading_rank_le_2)

text \<open>
  An anchor outside every heading, on an element whose name is not \<open>h\<close> followed by
  digits: the element is the root of the section, and the section ends before the first
  sibling heading of any rank.
\<close>

lemma plain_section:
  assumes "fragment \<noteq> []" and "locate soup fragment = Some node"
    and "enclosing_heading node = None" and "tag_name (place_node node) = Some nm"
    and "\<not> (startswith nm ''h'' \<and> drop 1 nm \<noteq> [] \<and> list_all isdigit (drop 1 nm))"
  shows "slice_fragment_section soup fragment =
     Inr (Some (Tag ''div'' []
       (map as_child
          (place_node node # takeWhile (\<lambda>n. \<not> is_heading n) (next_siblings node)))))"
proof -
  have "section_level (place_node node) = Inr 6"
    using assms(4,5) by (auto simp: section_level_def)
  then show ?thesis
    using assms(1,2,3)
    by (simp add: slice_fragment_section_def collect_siblings_takeWhile heading_rank_le_6)
qed

text \<open>
  Claim C5 asks for the implicit rank 6 whenever the located element has no enclosing
  heading. On \<open><h0 id="x">a</h0><h1>b</h1>\<close> the element \<open>h0\<close> is no heading, yet the
  source reads its rank off its name: the level is 0, no sibling heading ends the section,
  and the \<open>h1\<close> that rank 6 would stop at is collected.
\<close>

theorem h0_section_runs_past_heading:
  "slice_fragment_section h0_document ''x'' =
     Inr (Some (Tag ''div'' []
       [Tag ''h0'' [(''id'', ''x'')] [NavigableString ''a''],
        Tag ''h1'' [] [NavigableString ''b'']]))
   \<and> map_option enclosing_heading (locate h0_document ''x'') = Some None
   \<and> section_level (Tag ''h0'' [(''id'', ''x'')] [NavigableString ''a'']) = Inr 0
   \<and> collect_siblings 6 [Tag ''h1'' [] [NavigableString ''b'']] = []"
  by code_simp

end
